theory Spec2Isabelle
  imports Main "HOL-Library.Word" "HOL-Library.Char_ord" "HOL-Library.List_Lexorder"
begin

unbundle bit_operations_syntax

section \<open>JSON values and \<open>JSON.stringify\<close>\<close>

text \<open>
  The payloads the services hash are JavaScript values that went through a JSON body parser.
  An object is the list of its own enumerable properties in enumeration order (for keys
  that are not array indices this is insertion order); numbers are restricted to the safe
  integers, which \<open>JSON.stringify\<close> prints in plain decimal.
\<close>

datatype json =
    JNull
  | JBool bool
  | JNum int
  | JStr string
  | JArr "json list"
  | JObj "(string \<times> json) list"

definition digit_char :: "nat \<Rightarrow> char" where
  "digit_char n = char_of (48 + n)"

fun show_nat :: "nat \<Rightarrow> string" where
  "show_nat n = (if n < 10 then [digit_char n] else show_nat (n div 10) @ [digit_char (n mod 10)])"

definition show_int :: "int \<Rightarrow> string" where
  "show_int n = (if n < 0 then CHR ''-'' # show_nat (nat (- n)) else show_nat (nat n))"

definition hex_char :: "nat \<Rightarrow> char" where
  "hex_char n = (if n < 10 then char_of (48 + n) else char_of (87 + n))"

text \<open>\<open>QuoteJSONString\<close> of ECMA-262, on strings of one-byte characters.\<close>

definition quote_char :: "char \<Rightarrow> string" where
  "quote_char c =
     (if c = CHR 0x08 then [CHR 0x5C, CHR ''b'']
      else if c = CHR 0x09 then [CHR 0x5C, CHR ''t'']
      else if c = CHR 0x0A then [CHR 0x5C, CHR ''n'']
      else if c = CHR 0x0C then [CHR 0x5C, CHR ''f'']
      else if c = CHR 0x0D then [CHR 0x5C, CHR ''r'']
      else if c = CHR 0x22 then [CHR 0x5C, CHR 0x22]
      else if c = CHR 0x5C then [CHR 0x5C, CHR 0x5C]
      else if (of_char c :: nat) < 32
        then [CHR 0x5C, CHR ''u'', CHR ''0'', CHR ''0'', hex_char (of_char c div 16), hex_char (of_char c mod 16)]
      else [c])"

definition quote :: "string \<Rightarrow> string" where
  "quote s = CHR 0x22 # concat (map quote_char s) @ [CHR 0x22]"

fun join :: "string list \<Rightarrow> string" where
  "join [] = []"
| "join [x] = x"
| "join (x # y # ys) = x @ '','' @ join (y # ys)"

text \<open>
  The members of a serialised object. Without a replacer every property is written, in
  enumeration order. With an array replacer \<open>K\<close> the property list is \<open>K\<close> at every
  nesting depth: the keys of \<open>K\<close> are written in the order of \<open>K\<close>, each only if
  the object has that property, and a property whose key is not in \<open>K\<close> is dropped.
\<close>

definition members :: "string list option \<Rightarrow> (string \<times> string) list \<Rightarrow> string list" where
  "members K kvs =
     (case K of
        None \<Rightarrow> map (\<lambda>(k, v). quote k @ '':'' @ v) kvs
      | Some ks \<Rightarrow>
          concat (map (\<lambda>k. case map_of kvs k of None \<Rightarrow> [] | Some v \<Rightarrow> [quote k @ '':'' @ v]) ks))"

primrec stringify :: "string list option \<Rightarrow> json \<Rightarrow> string" where
  "stringify K JNull = ''null''"
| "stringify K (JBool b) = (if b then ''true'' else ''false'')"
| "stringify K (JNum n) = show_int n"
| "stringify K (JStr s) = quote s"
| "stringify K (JArr xs) = ''['' @ join (map (stringify K) xs) @ '']''"
| "stringify K (JObj kvs) =
     ''{'' @ join (members K (map (map_prod id (stringify K)) kvs)) @ ''}''"

abbreviation JSON_stringify :: "json \<Rightarrow> string" where
  "JSON_stringify \<equiv> stringify None"

section \<open>The Merkle tree service (\<open>services/merkleTree.ts\<close>)\<close>

text \<open>
  \<open>hash\<close> is \<open>crypto.createHash('sha256').update(data).digest('hex')\<close>. The digest
  function of the runtime is the parameter \<open>H\<close> of every definition below, so that the
  theorems hold for every hash function.
\<close>

type_synonym hashfn = "string \<Rightarrow> string"

definition combineHashes :: "hashfn \<Rightarrow> string \<Rightarrow> string \<Rightarrow> string" where
  "combineHashes H left right = H (left @ right)"

datatype leaf_type = Batch | Event | Anchor

record MerkleLeaf =
  index :: nat
  hash :: string
  data :: json
  batch_id :: "string option"
  event_id :: "string option"
  type :: leaf_type
  root_hash :: string
  leaf_proof :: "string list"

text \<open>The \<open>MerkleLeaf\<close> collection: its documents in insertion order.\<close>

type_synonym store = "MerkleLeaf list"

datatype error =
    ValidationError
  | DuplicateKey
  | SparseArray
  | UndefinedRoot

text \<open>
  \<open>hashes[leafIndex] = leafHash\<close> on a JavaScript array: an index inside the array
  overwrites, the index \<open>length\<close> appends. A larger index would leave holes that read as
  \<open>undefined\<close>; the model stops there with \<open>SparseArray\<close>, and \<open>appendAll_dense\<close> below
  shows that no ledger built by appends reaches it.
\<close>

definition js_array_set :: "'a list \<Rightarrow> nat \<Rightarrow> 'a \<Rightarrow> error + 'a list" where
  "js_array_set xs i v =
     (if i < length xs then Inr (xs[i := v])
      else if i = length xs then Inr (xs @ [v])
      else Inl SparseArray)"

text \<open>
  The body of the \<open>for (let i = 0; i < currentLevel.length; i += 2)\<close> loop. The list
  argument is \<open>currentLevel\<close> from position \<open>i\<close> on, so \<open>i + 1 < currentLevel.length\<close>
  holds exactly when a second element is left. The result is \<open>nextLevel\<close> and the
  siblings pushed onto \<open>proof\<close> during this level.
\<close>

fun forLoop :: "hashfn \<Rightarrow> nat \<Rightarrow> nat \<Rightarrow> string list \<Rightarrow> string list \<times> string list" where
  "forLoop H currentIndex i [] = ([], [])"
| "forLoop H currentIndex i [left] =
     (let right = left;
          pushed =
            (if i = currentIndex \<or> i + 1 = currentIndex
             then (let sibling = (if i = currentIndex then right else left)
                   in if sibling \<noteq> left \<or> False then [sibling] else [])
             else [])
      in ([combineHashes H left right], pushed))"
| "forLoop H currentIndex i (left # right # rest) =
     (let pushed =
            (if i = currentIndex \<or> i + 1 = currentIndex
             then (let sibling = (if i = currentIndex then right else left)
                   in if sibling \<noteq> left \<or> True then [sibling] else [])
             else []);
          (nextLevel, more) = forLoop H currentIndex (i + 2) rest
      in (combineHashes H left right # nextLevel, pushed @ more))"

lemma length_forLoop: "length (fst (forLoop H c i xs)) = (length xs + 1) div 2"
  by (induction H c i xs rule: forLoop.induct) (auto simp: Let_def split: prod.splits)

text \<open>The \<open>while (currentLevel.length > 1)\<close> loop.\<close>

function whileLoop ::
  "hashfn \<Rightarrow> string list \<Rightarrow> nat \<Rightarrow> string list \<Rightarrow> string list \<times> string list" where
  "whileLoop H currentLevel currentIndex pf =
     (if length currentLevel > 1
      then (case forLoop H currentIndex 0 currentLevel of
              (nextLevel, pushed) \<Rightarrow> whileLoop H nextLevel (currentIndex div 2) (pf @ pushed))
      else (currentLevel, pf))"
  by pat_completeness auto
termination
proof (relation "measure (\<lambda>(H, lvl, i, p). length lvl)", goal_cases)
  case 1
  show ?case by simp
next
  case (2 H currentLevel currentIndex pf nextLevel pushed)
  have "length nextLevel = (length currentLevel + 1) div 2"
    using length_forLoop [of H currentIndex 0 currentLevel] 2 by (metis fst_conv)
  with 2 show ?case by simp
qed

declare whileLoop.simps [simp del]

text \<open>
  \<open>calculateRootAndProof\<close>: \<open>MerkleLeaf.find().sort({ index: 1 })\<close> is the collection
  sorted by \<open>index\<close>. After the loop \<open>currentLevel[0]\<close> is read; on an empty array it would
  be \<open>undefined\<close> (\<open>UndefinedRoot\<close>), which the loop never produces from a level of two or
  more hashes.
\<close>

definition calculateRootAndProof ::
  "hashfn \<Rightarrow> store \<Rightarrow> nat \<Rightarrow> string \<Rightarrow> error + (string \<times> string list)" where
  "calculateRootAndProof H db leafIndex leafHash =
     (let allLeaves = sort_key index db;
          hashes0 = map hash allLeaves
      in case js_array_set hashes0 leafIndex leafHash of
           Inl e \<Rightarrow> Inl e
         | Inr hashes \<Rightarrow>
             if length hashes = 0 then Inr (leafHash, [])
             else if length hashes = 1 then Inr (hashes ! 0, [])
             else (case whileLoop H hashes leafIndex [] of
                     ([], pf) \<Rightarrow> Inl UndefinedRoot
                   | (r # _, pf) \<Rightarrow> Inr (r, pf)))"

text \<open>
  \<open>merkleLeaf.save()\<close> first runs the validators of the schema: \<open>hash\<close> and \<open>root_hash\<close>
  are required strings, which an empty string is not, and \<open>data\<close> is required, which
  \<open>null\<close> is not (\<open>index\<close> is a number and \<open>type\<close> one of the three tags by their types).
  Then the document is inserted, and \<open>index\<close> is declared unique.
\<close>

definition validate :: "MerkleLeaf \<Rightarrow> bool" where
  "validate l = (hash l \<noteq> [] \<and> data l \<noteq> JNull \<and> root_hash l \<noteq> [])"

definition save :: "MerkleLeaf \<Rightarrow> store \<Rightarrow> error + store" where
  "save l db =
     (if \<not> validate l then Inl ValidationError
      else if index l \<in> set (map index db) then Inl DuplicateKey
      else Inr (db @ [l]))"

text \<open>\<open>MerkleLeaf.updateMany({}, { root_hash: newRoot })\<close>.\<close>

definition updateRootForAllLeaves :: "string \<Rightarrow> store \<Rightarrow> store" where
  "updateRootForAllLeaves newRoot db = map (\<lambda>l. l\<lparr>root_hash := newRoot\<rparr>) db"

text \<open>\<open>MerkleLeaf.findOne().sort({ index: -1 })\<close>.\<close>

definition findOne_sort_index_desc :: "store \<Rightarrow> MerkleLeaf option" where
  "findOne_sort_index_desc db = (case rev (sort_key index db) of [] \<Rightarrow> None | l # _ \<Rightarrow> Some l)"

record AppendResult =
  res_index :: nat
  res_root :: string
  res_leaf :: string

definition appendLeaf ::
  "hashfn \<Rightarrow> json \<Rightarrow> leaf_type \<Rightarrow> string option \<Rightarrow> string option \<Rightarrow> store
     \<Rightarrow> error + (AppendResult \<times> store)" where
  "appendLeaf H leafData ty batchId eventId db =
     (let leafHash = H (JSON_stringify leafData);
          lastLeaf = findOne_sort_index_desc db;
          newIndex = (case lastLeaf of Some l \<Rightarrow> index l + 1 | None \<Rightarrow> 0)
      in case calculateRootAndProof H db newIndex leafHash of
           Inl e \<Rightarrow> Inl e
         | Inr (root, pf) \<Rightarrow>
             (let merkleLeaf = \<lparr>index = newIndex, hash = leafHash, data = leafData,
                    batch_id = batchId, event_id = eventId, type = ty,
                    root_hash = root, leaf_proof = pf\<rparr>
              in case save merkleLeaf db of
                   Inl e \<Rightarrow> Inl e
                 | Inr db1 \<Rightarrow>
                     Inr (\<lparr>res_index = newIndex, res_root = root, res_leaf = leafHash\<rparr>,
                          updateRootForAllLeaves root db1)))"

text \<open>
  \<open>appendLeaf\<close> awaits four database operations, and another call can run between any two
  of them. \<open>appendLeaf_reads\<close> is the call up to \<open>new MerkleLeaf\<close>: \<open>db1\<close> is the
  collection as \<open>findOne\<close> sees it and \<open>db2\<close> as \<open>find\<close> in \<open>calculateRootAndProof\<close> sees
  it. After it come \<open>save\<close> and \<open>updateRootForAllLeaves\<close>, each on the collection of its
  moment (\<open>appendLeaf_steps\<close> below: on one unchanged collection the steps are \<open>appendLeaf\<close>).
\<close>

definition appendLeaf_reads ::
  "hashfn \<Rightarrow> json \<Rightarrow> leaf_type \<Rightarrow> string option \<Rightarrow> string option \<Rightarrow> store \<Rightarrow> store
     \<Rightarrow> error + MerkleLeaf" where
  "appendLeaf_reads H leafData ty batchId eventId db1 db2 =
     (let leafHash = H (JSON_stringify leafData);
          lastLeaf = findOne_sort_index_desc db1;
          newIndex = (case lastLeaf of Some l \<Rightarrow> index l + 1 | None \<Rightarrow> 0)
      in case calculateRootAndProof H db2 newIndex leafHash of
           Inl e \<Rightarrow> Inl e
         | Inr (root, pf) \<Rightarrow>
             Inr \<lparr>index = newIndex, hash = leafHash, data = leafData,
                  batch_id = batchId, event_id = eventId, type = ty,
                  root_hash = root, leaf_proof = pf\<rparr>)"

record MerkleProof =
  leaf :: string
  proof_list :: "string list"
  leafIndex :: nat
  root :: string

text \<open>\<open>getProof\<close>: \<open>MerkleLeaf.findOne({ index: leafIndex })\<close>, \<open>null\<close> as \<open>None\<close>.\<close>

definition getProof :: "store \<Rightarrow> nat \<Rightarrow> MerkleProof option" where
  "getProof db i =
     (case find (\<lambda>l. index l = i) db of
        None \<Rightarrow> None
      | Some l \<Rightarrow> Some \<lparr>leaf = hash l, proof_list = leaf_proof l, leafIndex = index l, root = root_hash l\<rparr>)"

text \<open>\<open>verifyProof\<close>: the loop over the proof elements, then the comparison with the root.\<close>

fun verifyLoop :: "hashfn \<Rightarrow> string \<Rightarrow> nat \<Rightarrow> string list \<Rightarrow> string" where
  "verifyLoop H computedHash currentIndex [] = computedHash"
| "verifyLoop H computedHash currentIndex (proofElement # rest) =
     verifyLoop H
       (if currentIndex mod 2 = 0 then combineHashes H computedHash proofElement
        else combineHashes H proofElement computedHash)
       (currentIndex div 2) rest"

definition verifyProof :: "hashfn \<Rightarrow> string \<Rightarrow> string list \<Rightarrow> nat \<Rightarrow> string \<Rightarrow> bool" where
  "verifyProof H lf pf i r = (verifyLoop H lf i pf = r)"

definition getCurrentRoot :: "store \<Rightarrow> string option" where
  "getCurrentRoot db = (case findOne_sort_index_desc db of Some l \<Rightarrow> Some (root_hash l) | None \<Rightarrow> None)"

text \<open>A sequence of \<open>appendLeaf\<close> calls executed one after the other.\<close>

type_synonym request = "json \<times> leaf_type \<times> string option \<times> string option"

fun appendAll :: "hashfn \<Rightarrow> request list \<Rightarrow> store \<Rightarrow> error + (AppendResult list \<times> store)" where
  "appendAll H [] db = Inr ([], db)"
| "appendAll H ((leafData, ty, batchId, eventId) # rest) db =
     (case appendLeaf H leafData ty batchId eventId db of
        Inl e \<Rightarrow> Inl e
      | Inr (r, db1) \<Rightarrow>
          (case appendAll H rest db1 of
             Inl e \<Rightarrow> Inl e
           | Inr (rs, db2) \<Rightarrow> Inr (r # rs, db2)))"

text \<open>
  The strings \<open>verifyProof\<close> feeds to the hash function, level by level, and the value of
  \<open>computedHash\<close> at the start of each round of its loop.
\<close>

fun verifyInputs :: "hashfn \<Rightarrow> string \<Rightarrow> nat \<Rightarrow> string list \<Rightarrow> string list" where
  "verifyInputs H computedHash currentIndex [] = []"
| "verifyInputs H computedHash currentIndex (proofElement # rest) =
     (let x = (if currentIndex mod 2 = 0 then computedHash @ proofElement
               else proofElement @ computedHash)
      in x # verifyInputs H (H x) (currentIndex div 2) rest)"

fun verifyNodes :: "hashfn \<Rightarrow> string \<Rightarrow> nat \<Rightarrow> string list \<Rightarrow> string list" where
  "verifyNodes H computedHash currentIndex [] = []"
| "verifyNodes H computedHash currentIndex (proofElement # rest) =
     computedHash #
     verifyNodes H
       (if currentIndex mod 2 = 0 then combineHashes H computedHash proofElement
        else combineHashes H proofElement computedHash)
       (currentIndex div 2) rest"

section \<open>Hashing and signatures (\<open>utils/crypto.ts\<close>)\<close>

type_synonym bytes = "8 word list"

text \<open>
  \<open>Buffer.from(s, 'hex')\<close>: pairs of hexadecimal digits of either case are decoded until the
  first pair that is not two such digits, and a trailing single character is dropped; it
  never throws on a string. \<open>buf.toString('hex')\<close> writes two lower-case digits per byte.
\<close>

definition hex_value :: "char \<Rightarrow> nat option" where
  "hex_value c =
     (let n = (of_char c :: nat)
      in if 48 \<le> n \<and> n \<le> 57 then Some (n - 48)
         else if 97 \<le> n \<and> n \<le> 102 then Some (n - 87)
         else if 65 \<le> n \<and> n \<le> 70 then Some (n - 55)
         else None)"

fun Buffer_from_hex :: "string \<Rightarrow> bytes" where
  "Buffer_from_hex (a # b # rest) =
     (case (hex_value a, hex_value b) of
        (Some x, Some y) \<Rightarrow> word_of_nat (16 * x + y) # Buffer_from_hex rest
      | _ \<Rightarrow> [])"
| "Buffer_from_hex _ = []"

definition toString_hex :: "bytes \<Rightarrow> string" where
  "toString_hex bs = concat (map (\<lambda>b. [hex_char (unat b div 16), hex_char (unat b mod 16)]) bs)"

text \<open>
  The \<open>secp256k1\<close> package is a parameter: its four functions used here, each of which
  either returns or throws. \<open>D\<close> below is \<open>crypto.createHash('sha256').update(data).digest()\<close>,
  the raw digest.
\<close>

datatype lib_error = LibError

record secp256k1 =
  privateKeyVerify :: "bytes \<Rightarrow> lib_error + bool"
  publicKeyCreate :: "bytes \<Rightarrow> lib_error + bytes"
  ecdsaSign :: "bytes \<Rightarrow> bytes \<Rightarrow> lib_error + bytes"
  ecdsaVerify :: "bytes \<Rightarrow> bytes \<Rightarrow> bytes \<Rightarrow> lib_error + bool"




text \<open>\<open>verifySignature\<close>: the body of the \<open>try\<close>, then the \<open>catch\<close> that returns false.\<close>

definition verifySignature_try ::
  "secp256k1 \<Rightarrow> (string \<Rightarrow> bytes) \<Rightarrow> string \<Rightarrow> string \<Rightarrow> string \<Rightarrow> lib_error + bool" where
  "verifySignature_try L D dat signature publicKey =
     (let h = D dat;
          sig = Buffer_from_hex signature;
          pubKey = Buffer_from_hex publicKey
      in ecdsaVerify L sig h pubKey)"

definition verifySignature ::
  "secp256k1 \<Rightarrow> (string \<Rightarrow> bytes) \<Rightarrow> string \<Rightarrow> string \<Rightarrow> string \<Rightarrow> bool" where
  "verifySignature L D dat signature publicKey =
     (case verifySignature_try L D dat signature publicKey of
        Inl e \<Rightarrow> False
      | Inr b \<Rightarrow> b)"

text \<open>
  \<open>hashData\<close>: a string is hashed as it is; any other value is serialised with the sorted
  \<open>Object.keys(data)\<close> as array replacer. \<open>Object.keys(null)\<close> throws.
\<close>

datatype type_error = TypeError

definition Object_keys :: "json \<Rightarrow> type_error + string list" where
  "Object_keys v =
     (case v of
        JNull \<Rightarrow> Inl TypeError
      | JObj kvs \<Rightarrow> Inr (map fst kvs)
      | JArr xs \<Rightarrow> Inr (map show_nat [0..<length xs])
      | JStr s \<Rightarrow> Inr (map show_nat [0..<length s])
      | _ \<Rightarrow> Inr [])"

definition hashData :: "hashfn \<Rightarrow> json \<Rightarrow> type_error + string" where
  "hashData H dat =
     (case dat of
        JStr s \<Rightarrow> Inr (H s)
      | _ \<Rightarrow>
          (case Object_keys dat of
             Inl e \<Rightarrow> Inl e
           | Inr ks \<Rightarrow> Inr (H (stringify (Some (sort ks)) dat))))"

text \<open>JavaScript truthiness, for \<open>batchData.timestamp || new Date().toISOString()\<close>.\<close>

definition truthy :: "json \<Rightarrow> bool" where
  "truthy v =
     (case v of JNull \<Rightarrow> False | JBool b \<Rightarrow> b | JNum n \<Rightarrow> n \<noteq> 0 | JStr s \<Rightarrow> s \<noteq> [] | _ \<Rightarrow> True)"

text \<open>
  \<open>createBatchHash\<close> of an object \<open>batchData\<close>, given by its property list; \<open>now\<close> is
  \<open>new Date().toISOString()\<close>. The object \<open>canonical\<close> always has its six own properties, a
  missing field of \<open>batchData\<close> giving the value \<open>undefined\<close> (\<open>None\<close>). It is not a string,
  so \<open>hashData\<close> serialises it with its sorted keys as replacer, and \<open>JSON.stringify\<close> leaves
  out the properties whose value is \<open>undefined\<close>.
\<close>

definition createBatchHash :: "hashfn \<Rightarrow> string \<Rightarrow> (string \<times> json) list \<Rightarrow> string" where
  "createBatchHash H now batchData =
     (let get = map_of batchData;
          canonical =
            [(''batch_id'', get ''batch_id''),
             (''farmer_id'', get ''farmer_id''),
             (''crop'', get ''crop''),
             (''location'', get ''location''),
             (''metadata'', get ''metadata''),
             (''timestamp'',
                Some (case get ''timestamp'' of
                        Some t \<Rightarrow> if truthy t then t else JStr now
                      | None \<Rightarrow> JStr now))];
          ks = sort (map fst canonical)
      in H (stringify (Some ks)
              (JObj (List.map_filter (\<lambda>(k, v). map_option (Pair k) v) canonical))))"

text \<open>
  Two values have the same key/value sets when sorting the properties of every object by
  key, at every depth, gives the same value; arrays keep their order. Objects have no two
  properties with the same key (\<open>distinct_keys\<close>).
\<close>

primrec sort_keys :: "json \<Rightarrow> json" where
  "sort_keys JNull = JNull"
| "sort_keys (JBool b) = JBool b"
| "sort_keys (JNum n) = JNum n"
| "sort_keys (JStr s) = JStr s"
| "sort_keys (JArr xs) = JArr (map sort_keys xs)"
| "sort_keys (JObj kvs) = JObj (sort_key fst (map (map_prod id sort_keys) kvs))"

primrec distinct_keys :: "json \<Rightarrow> bool" where
  "distinct_keys JNull = True"
| "distinct_keys (JBool b) = True"
| "distinct_keys (JNum n) = True"
| "distinct_keys (JStr s) = True"
| "distinct_keys (JArr xs) = list_all id (map distinct_keys xs)"
| "distinct_keys (JObj kvs) =
     (distinct (map fst kvs) \<and> list_all snd (map (map_prod id distinct_keys) kvs))"

section \<open>The verification route (\<open>routes/verify.ts\<close>)\<close>

text \<open>
  The fields of the QR payload (strings, as its interface declares them) and of the \<open>Batch\<close>
  document that the route reads. Field names carry a prefix because records share one name
  space.
\<close>

record QRPayload =
  qr_batch_id :: string
  qr_farmer_id :: string
  qr_timestamp :: string
  qr_ipfs_hash :: string
  qr_merkle_leaf :: string
  qr_farmer_pubkey :: string
  qr_signature :: string

record BatchDoc =
  b_batch_id :: string
  b_crop :: json
  b_location :: json
  b_metadata :: json
  b_timeline :: "json list"
  b_merkle_leaf :: string
  b_blockchain_tx :: "string option"
  b_isActive :: bool

datatype verification_mode = blockchain | merkle | both

record VerificationResult =
  verified :: bool
  mode :: verification_mode
  reason :: string
  timeline :: "json list"
  merkle_proof :: "MerkleProof option"
  blockchain_tx :: "string option"

datatype route_error = BadRequest

text \<open>\<open>Batch.findOne({ batch_id: id, isActive: true })\<close>.\<close>

definition Batch_findOne :: "BatchDoc list \<Rightarrow> string \<Rightarrow> BatchDoc option" where
  "Batch_findOne batches bid = find (\<lambda>b. b_batch_id b = bid \<and> b_isActive b) batches"

definition verifyQRSignature ::
  "secp256k1 \<Rightarrow> (string \<Rightarrow> bytes) \<Rightarrow> QRPayload \<Rightarrow> BatchDoc \<Rightarrow> bool" where
  "verifyQRSignature L D qrPayload batch =
     (let originalData = JObj
            [(''batch_id'', JStr (qr_batch_id qrPayload)),
             (''farmer_id'', JStr (qr_farmer_id qrPayload)),
             (''crop'', b_crop batch),
             (''location'', b_location batch),
             (''metadata'', b_metadata batch),
             (''timestamp'', JStr (qr_timestamp qrPayload))];
          dataString = JSON_stringify originalData
      in verifySignature L D dataString (qr_signature qrPayload) (qr_farmer_pubkey qrPayload))"

definition getMerkleLeafIndex :: "store \<Rightarrow> string \<Rightarrow> nat" where
  "getMerkleLeafIndex db leafHash =
     (case find (\<lambda>l. hash l = leafHash) db of Some merkleLeaf \<Rightarrow> index merkleLeaf | None \<Rightarrow> 0)"

definition verifyMerkleInclusion :: "hashfn \<Rightarrow> store \<Rightarrow> BatchDoc \<Rightarrow> bool" where
  "verifyMerkleInclusion H db batch =
     (let i = getMerkleLeafIndex db (b_merkle_leaf batch)
      in case getProof db i of
           None \<Rightarrow> False
         | Some p \<Rightarrow> verifyProof H (leaf p) (proof_list p) (leafIndex p) (root p))"

text \<open>\<open>verifyBlockchainAnchor\<close>: \<open>!!batch.blockchain_tx\<close>, a string being truthy when not empty.\<close>

definition verifyBlockchainAnchor :: "BatchDoc \<Rightarrow> bool" where
  "verifyBlockchainAnchor batch =
     (case b_blockchain_tx batch of None \<Rightarrow> False | Some tx \<Rightarrow> tx \<noteq> [])"

text \<open>
  The record the handler of \<open>POST /verify\<close> looks up: by the QR payload's batch id when
  \<open>qr_json\<close> is given, else by \<open>batch_id\<close> when that is a non-empty string.
\<close>

definition batchToVerify :: "BatchDoc list \<Rightarrow> QRPayload option \<Rightarrow> string option \<Rightarrow> BatchDoc option" where
  "batchToVerify batches qr_json req_batch_id =
     (case qr_json of
        Some qrPayload \<Rightarrow> Batch_findOne batches (qr_batch_id qrPayload)
      | None \<Rightarrow>
          (case req_batch_id of
             Some bid \<Rightarrow> if bid \<noteq> [] then Batch_findOne batches bid else None
           | None \<Rightarrow> None))"

text \<open>
  The handler. The request schema asks for \<open>qr_json\<close> or \<open>batch_id\<close> and does not
  allow an empty string as \<open>batch_id\<close>; a body that fails the schema is answered with
  status 400 (\<open>BadRequest\<close>).
\<close>

definition verifyRoute ::
  "hashfn \<Rightarrow> secp256k1 \<Rightarrow> (string \<Rightarrow> bytes) \<Rightarrow> BatchDoc list \<Rightarrow> store
     \<Rightarrow> QRPayload option \<Rightarrow> string option \<Rightarrow> route_error + VerificationResult" where
  "verifyRoute H L D batches db qr_json req_batch_id =
     (if (qr_json = None \<and> req_batch_id = None) \<or> req_batch_id = Some [] then Inl BadRequest
      else
        (case batchToVerify batches qr_json req_batch_id of
              None \<Rightarrow>
                Inr \<lparr>verified = False, mode = merkle, reason = ''Batch not found in database'',
                     timeline = [], merkle_proof = None, blockchain_tx = None\<rparr>
            | Some batch \<Rightarrow>
                (let result = \<lparr>verified = False, mode = merkle, reason = [],
                       timeline = b_timeline batch, merkle_proof = None, blockchain_tx = None\<rparr>
                 in if (case qr_json of
                          Some qrPayload \<Rightarrow> \<not> verifyQRSignature L D qrPayload batch
                        | None \<Rightarrow> False)
                    then Inr (result\<lparr>reason := ''Invalid QR signature''\<rparr>)
                    else if \<not> verifyMerkleInclusion H db batch
                    then Inr (result\<lparr>reason := ''Merkle proof verification failed''\<rparr>)
                    else
                      (let result1 =
                             (if verifyBlockchainAnchor batch
                              then result\<lparr>mode := both, verified := True,
                                     reason := ''Verified through both Merkle tree and blockchain anchor'',
                                     blockchain_tx := b_blockchain_tx batch\<rparr>
                              else result\<lparr>mode := merkle, verified := True,
                                     reason := ''Verified through Merkle tree (blockchain anchor pending or unavailable)''\<rparr>);
                           merkleProof = getProof db (getMerkleLeafIndex db (b_merkle_leaf batch))
                       in Inr (result1\<lparr>merkle_proof := merkleProof\<rparr>)))))"


section \<open>Closed instances\<close>

text \<open>
  The closed statements below need a concrete digest. \<open>demo_hash\<close> wraps its argument and
  so never maps two strings to one; it stands for a digest without collisions.
\<close>

definition demo_hash :: hashfn where
  "demo_hash s = ''H('' @ s @ '')''"

definition dataA :: json where
  "dataA = JObj [(''crop'', JStr ''rice'')]"

definition dataB :: json where
  "dataB = JObj [(''crop'', JStr ''wheat'')]"

definition dataC :: json where
  "dataC = JObj [(''crop'', JStr ''maize'')]"



text \<open>The ledger after appending \<open>dataA\<close>, and after appending \<open>dataB\<close> to that.\<close>

definition ledgerA :: store where
  "ledgerA =
     [\<lparr>index = 0, hash = demo_hash (JSON_stringify dataA), data = dataA, batch_id = None,
        event_id = None, type = Batch, root_hash = demo_hash (JSON_stringify dataA),
        leaf_proof = []\<rparr>]"

definition ledgerAB :: store where
  "ledgerAB =
     [\<lparr>index = 0, hash = demo_hash (JSON_stringify dataA), data = dataA, batch_id = None,
        event_id = None, type = Batch,
        root_hash = demo_hash (demo_hash (JSON_stringify dataA) @ demo_hash (JSON_stringify dataB)),
        leaf_proof = []\<rparr>,
      \<lparr>index = 1, hash = demo_hash (JSON_stringify dataB), data = dataB, batch_id = None,
        event_id = None, type = Batch,
        root_hash = demo_hash (demo_hash (JSON_stringify dataA) @ demo_hash (JSON_stringify dataB)),
        leaf_proof = [demo_hash (JSON_stringify dataA)]\<rparr>]"

text \<open>Two records with the same keys and values, built in different orders.\<close>

definition propsA :: "(string \<times> json) list" where
  "propsA =
     [(''batch_id'', JStr ''B1''), (''crop'', JStr ''rice''),
      (''location'', JObj [(''lat'', JNum 12), (''lng'', JNum 77)])]"

definition propsB :: "(string \<times> json) list" where
  "propsB =
     [(''location'', JObj [(''lng'', JNum 77), (''lat'', JNum 12)]),
      (''crop'', JStr ''rice''), (''batch_id'', JStr ''B1'')]"

text \<open>
  A stand-in with the interface of the \<open>secp256k1\<close> package, for closed instances only: it
  checks the lengths of its arguments as the package does, and it accepts exactly the
  signatures it makes, under the public key of the signing key. \<open>demo_digest\<close> yields 32 bytes. Neither has any
  cryptographic strength.
\<close>

definition demo_digest :: "string \<Rightarrow> bytes" where
  "demo_digest s = take 32 (map (\<lambda>c. word_of_nat (of_char c)) s @ replicate 32 0)"

definition demo_secp256k1 :: secp256k1 where
  "demo_secp256k1 =
     \<lparr>privateKeyVerify =
        (\<lambda>k. if length k = 32 then Inr (k \<noteq> replicate 32 0) else Inl LibError),
      publicKeyCreate =
        (\<lambda>k. if length k = 32 \<and> k \<noteq> replicate 32 0 then Inr (2 # k) else Inl LibError),
      ecdsaSign =
        (\<lambda>h k. if length h = 32 \<and> length k = 32 \<and> k \<noteq> replicate 32 0
               then Inr (h @ k) else Inl LibError),
      ecdsaVerify =
        (\<lambda>sig h pub. if length sig = 64 \<and> length h = 32 \<and> (length pub = 33 \<or> length pub = 65)
                     then Inr (sig = h @ tl pub \<and> hd pub = 2 \<and> tl pub \<noteq> replicate 32 0)
                     else Inl LibError)\<rparr>"

definition demo_key :: bytes where
  "demo_key = replicate 32 17"


definition demo_publicKey :: string where
  "demo_publicKey = toString_hex (2 # demo_key)"

definition demo_signature :: string where
  "demo_signature = toString_hex (demo_digest ''jute'' @ demo_key)"

text \<open>A stored batch whose leaf is the one of \<open>ledgerA\<close>, and a QR payload signed for it.\<close>

definition demo_batch :: BatchDoc where
  "demo_batch =
     \<lparr>b_batch_id = ''B1'', b_crop = JStr ''rice'',
      b_location = JObj [(''lat'', JNum 12), (''lng'', JNum 77)],
      b_metadata = JObj [(''unit'', JStr ''kg'')], b_timeline = [],
      b_merkle_leaf = demo_hash (JSON_stringify dataA), b_blockchain_tx = None,
      b_isActive = True\<rparr>"

definition demo_qr :: QRPayload where
  "demo_qr =
     \<lparr>qr_batch_id = ''B1'', qr_farmer_id = ''F1'', qr_timestamp = ''2024-05-01T00:00:00.000Z'',
      qr_ipfs_hash = ''Qm1'', qr_merkle_leaf = demo_hash (JSON_stringify dataA),
      qr_farmer_pubkey = demo_publicKey,
      qr_signature =
        toString_hex
          (demo_digest
             (JSON_stringify
                (JObj [(''batch_id'', JStr ''B1''), (''farmer_id'', JStr ''F1''),
                       (''crop'', JStr ''rice''),
                       (''location'', JObj [(''lat'', JNum 12), (''lng'', JNum 77)]),
                       (''metadata'', JObj [(''unit'', JStr ''kg'')]),
                       (''timestamp'', JStr ''2024-05-01T00:00:00.000Z'')])) @ demo_key)\<rparr>"

section \<open>Verification of proofs\<close>

text \<open>
  C10: with an empty sibling list \<open>verifyProof\<close> compares the leaf hash with the root and
  never looks at the index: it returns true exactly when the two are equal, for every index.
\<close>

theorem verifyProof_empty_proof: "verifyProof H h [] i r \<longleftrightarrow> h = r"
  by (simp add: verifyProof_def)

section \<open>The ledger: appends\<close>












lemmas ledger_defs =
  appendLeaf_def calculateRootAndProof_def findOne_sort_index_desc_def js_array_set_def
  save_def validate_def updateRootForAllLeaves_def combineHashes_def Let_def

lemma demo_hash_nonempty: "\<forall>s. demo_hash s \<noteq> []"
  by (simp add: demo_hash_def)

lemma data_not_null: "dataA \<noteq> JNull" "dataB \<noteq> JNull" "dataC \<noteq> JNull"
  by (simp_all add: dataA_def dataB_def dataC_def)

text \<open>On a collection that no other call changes, the steps of a call are \<open>appendLeaf\<close>.\<close>

lemma appendLeaf_steps:
  "appendLeaf H d ty b e db =
     (case appendLeaf_reads H d ty b e db db of
        Inl err \<Rightarrow> Inl err
      | Inr l \<Rightarrow>
          (case save l db of
             Inl err \<Rightarrow> Inl err
           | Inr db1 \<Rightarrow>
               Inr (\<lparr>res_index = index l, res_root = root_hash l, res_leaf = hash l\<rparr>,
                    updateRootForAllLeaves (root_hash l) db1)))"
  by (simp add: appendLeaf_def appendLeaf_reads_def Let_def split: sum.splits prod.splits)




lemma appendAll_three:
  assumes "A \<noteq> JNull" "B \<noteq> JNull" "C \<noteq> JNull" "\<forall>s. H s \<noteq> []"
  shows "appendAll H [(A, ta, ba, ea), (B, tb, bb, eb), (C, tc, bc, ec)] [] =
     Inr ([\<lparr>res_index = 0, res_root = H (JSON_stringify A), res_leaf = H (JSON_stringify A)\<rparr>,
           \<lparr>res_index = 1, res_root = H (H (JSON_stringify A) @ H (JSON_stringify B)),
              res_leaf = H (JSON_stringify B)\<rparr>,
           \<lparr>res_index = 2,
              res_root = H (H (H (JSON_stringify A) @ H (JSON_stringify B)) @
                            H (H (JSON_stringify C) @ H (JSON_stringify C))),
              res_leaf = H (JSON_stringify C)\<rparr>],
          [\<lparr>index = 0, hash = H (JSON_stringify A), data = A, batch_id = ba, event_id = ea,
              type = ta,
              root_hash = H (H (H (JSON_stringify A) @ H (JSON_stringify B)) @
                             H (H (JSON_stringify C) @ H (JSON_stringify C))),
              leaf_proof = []\<rparr>,
           \<lparr>index = 1, hash = H (JSON_stringify B), data = B, batch_id = bb, event_id = eb,
              type = tb,
              root_hash = H (H (H (JSON_stringify A) @ H (JSON_stringify B)) @
                             H (H (JSON_stringify C) @ H (JSON_stringify C))),
              leaf_proof = [H (JSON_stringify A)]\<rparr>,
           \<lparr>index = 2, hash = H (JSON_stringify C), data = C, batch_id = bc, event_id = ec,
              type = tc,
              root_hash = H (H (H (JSON_stringify A) @ H (JSON_stringify B)) @
                             H (H (JSON_stringify C) @ H (JSON_stringify C))),
              leaf_proof = [H (H (JSON_stringify A) @ H (JSON_stringify B))]\<rparr>])"
  using assms by (simp add: ledger_defs whileLoop.simps)

text \<open>
  C2: after A, B and C (none of them \<open>null\<close>, the digest never the empty string, so that
  every document passes the validators) are appended to the empty ledger, the root returned
  for C is \<open>combine (combine hA hB) (combine hC hC)\<close>, the odd last hash being paired with
  itself.
  The proof stored for C has one element, \<open>combine hA hB\<close>: the loop pushes no sibling for
  a hash that is paired with itself, so the proof is not \<open>[hC, combine hA hB]\<close>.
\<close>

theorem three_leaves_root_and_proof:
  "A \<noteq> JNull \<Longrightarrow> B \<noteq> JNull \<Longrightarrow> C \<noteq> JNull \<Longrightarrow> \<forall>s. H s \<noteq> [] \<Longrightarrow>
   \<exists>r0 r1 r2 l0 l1 l2.
     appendAll H [(A, ta, ba, ea), (B, tb, bb, eb), (C, tc, bc, ec)] [] =
       Inr ([r0, r1, r2], [l0, l1, l2]) \<and>
     res_root r2 =
       combineHashes H (combineHashes H (H (JSON_stringify A)) (H (JSON_stringify B)))
         (combineHashes H (H (JSON_stringify C)) (H (JSON_stringify C))) \<and>
     leaf_proof l2 = [combineHashes H (H (JSON_stringify A)) (H (JSON_stringify B))] \<and>
     leaf_proof l2 \<noteq>
       [H (JSON_stringify C), combineHashes H (H (JSON_stringify A)) (H (JSON_stringify B))]"
proof -
  assume a: "A \<noteq> JNull" "B \<noteq> JNull" "C \<noteq> JNull" "\<forall>s. H s \<noteq> []"
  show ?thesis
    unfolding appendAll_three [OF a] by (simp add: combineHashes_def)
qed

theorem three_leaves_root_and_proof_witness:
  "\<exists>r0 r1 r2 l0 l1 l2.
     appendAll demo_hash
       [(dataA, Batch, None, None), (dataB, Batch, None, None), (dataC, Batch, None, None)] [] =
       Inr ([r0, r1, r2], [l0, l1, l2]) \<and>
     length (leaf_proof l2) = 1"
  using three_leaves_root_and_proof
    [OF data_not_null demo_hash_nonempty, of Batch None None Batch None None Batch None None]
  by (auto simp del: appendAll.simps)

text \<open>
  C1: under the same conditions, for that third leaf, \<open>verifyProof\<close> on the stored hash,
  proof and index and on the root returned by its own append hashes \<open>hC @ combine hA hB\<close>,
  whereas the root is the hash of \<open>combine hA hB @ combine hC hC\<close>: it returns true only if
  the hash function maps these two strings to the same digest.
\<close>

theorem third_leaf_verifyProof:
  "A \<noteq> JNull \<Longrightarrow> B \<noteq> JNull \<Longrightarrow> C \<noteq> JNull \<Longrightarrow> \<forall>s. H s \<noteq> [] \<Longrightarrow>
   \<exists>r0 r1 r2 l0 l1 l2.
     appendAll H [(A, ta, ba, ea), (B, tb, bb, eb), (C, tc, bc, ec)] [] =
       Inr ([r0, r1, r2], [l0, l1, l2]) \<and>
     (verifyProof H (hash l2) (leaf_proof l2) (index l2) (res_root r2) \<longleftrightarrow>
        H (H (JSON_stringify C) @ H (H (JSON_stringify A) @ H (JSON_stringify B))) =
        H (H (H (JSON_stringify A) @ H (JSON_stringify B)) @
           H (H (JSON_stringify C) @ H (JSON_stringify C))))"
proof -
  assume a: "A \<noteq> JNull" "B \<noteq> JNull" "C \<noteq> JNull" "\<forall>s. H s \<noteq> []"
  show ?thesis
    unfolding appendAll_three [OF a] by (simp add: verifyProof_def combineHashes_def)
qed

theorem third_leaf_verifyProof_witness:
  "\<exists>r0 r1 r2 l0 l1 l2.
     appendAll demo_hash
       [(dataA, Batch, None, None), (dataB, Batch, None, None), (dataC, Batch, None, None)] [] =
       Inr ([r0, r1, r2], [l0, l1, l2]) \<and>
     \<not> verifyProof demo_hash (hash l2) (leaf_proof l2) (index l2) (res_root r2)"
proof -
  let ?hA = "demo_hash (JSON_stringify dataA)"
  let ?hB = "demo_hash (JSON_stringify dataB)"
  let ?hC = "demo_hash (JSON_stringify dataC)"
  from third_leaf_verifyProof
    [OF data_not_null demo_hash_nonempty, of Batch None None Batch None None Batch None None]
  obtain r0 r1 r2 l0 l1 l2 where
    a: "appendAll demo_hash
       [(dataA, Batch, None, None), (dataB, Batch, None, None), (dataC, Batch, None, None)] [] =
       Inr ([r0, r1, r2], [l0, l1, l2])"
    and v: "verifyProof demo_hash (hash l2) (leaf_proof l2) (index l2) (res_root r2) \<longleftrightarrow>
        demo_hash (?hC @ demo_hash (?hA @ ?hB)) =
        demo_hash (demo_hash (?hA @ ?hB) @ demo_hash (?hC @ ?hC))"
    by blast
  have "demo_hash (?hC @ demo_hash (?hA @ ?hB)) \<noteq>
        demo_hash (demo_hash (?hA @ ?hB) @ demo_hash (?hC @ ?hC))"
    by (simp add: demo_hash_def)
  with v have "\<not> verifyProof demo_hash (hash l2) (leaf_proof l2) (index l2) (res_root r2)"
    by simp
  with a show ?thesis by blast
qed

section \<open>The ledger: what a later append changes\<close>

lemma getProof_append:
  "find (\<lambda>l. index l = i) db = Some l \<Longrightarrow>
   getProof (updateRootForAllLeaves r (db @ [n])) i =
     Some \<lparr>leaf = hash l, proof_list = leaf_proof l, leafIndex = index l, root = r\<rparr>"
  by (induction db) (auto simp: getProof_def updateRootForAllLeaves_def)

lemma appendLeaf_shape:
  "appendLeaf H d ty b e db = Inr (res, db') \<Longrightarrow>
   \<exists>n. db' = updateRootForAllLeaves (res_root res) (db @ [n])"
  by (auto simp: appendLeaf_def save_def Let_def split: sum.splits prod.splits if_splits)

lemma getProof_appendLeaf:
  assumes "appendLeaf H d ty b e db = Inr (res, db')" and "getProof db i = Some p"
  shows "getProof db' i = Some (p\<lparr>root := res_root res\<rparr>)"
proof -
  from assms(2) obtain l where l: "find (\<lambda>l. index l = i) db = Some l"
    and p: "p = \<lparr>leaf = hash l, proof_list = leaf_proof l, leafIndex = index l, root = root_hash l\<rparr>"
    by (auto simp: getProof_def split: option.splits)
  from appendLeaf_shape [OF assms(1)] obtain n where
    "db' = updateRootForAllLeaves (res_root res) (db @ [n])" by blast
  with getProof_append [OF l] p show ?thesis by simp
qed

lemma appendAll_ledger1: "appendAll demo_hash [(dataA, Batch, None, None)] [] =
    Inr ([\<lparr>res_index = 0, res_root = demo_hash (JSON_stringify dataA),
            res_leaf = demo_hash (JSON_stringify dataA)\<rparr>], ledgerA)"
  by (simp add: ledger_defs ledgerA_def demo_hash_nonempty data_not_null)

lemma appendAll_ledger2: "appendAll demo_hash [(dataB, Batch, None, None)] ledgerA =
    Inr ([\<lparr>res_index = 1,
            res_root = demo_hash (demo_hash (JSON_stringify dataA) @ demo_hash (JSON_stringify dataB)),
            res_leaf = demo_hash (JSON_stringify dataB)\<rparr>], ledgerAB)"
  by (simp add: ledger_defs ledgerA_def ledgerAB_def whileLoop.simps demo_hash_nonempty
      data_not_null)

text \<open>
  C3 as stated fails: \<open>updateRootForAllLeaves\<close> overwrites the root stored with every
  earlier leaf. After \<open>dataA\<close> the ledger is \<open>ledgerA\<close> and \<open>getProof 0\<close> carries the root
  returned by that append; after \<open>dataB\<close> the same call carries the new root, which differs
  and against which the stored proof of leaf 0 no longer verifies.
\<close>

theorem stored_root_rewritten_counterexample:
  "appendAll demo_hash [(dataA, Batch, None, None)] [] =
     Inr ([\<lparr>res_index = 0, res_root = demo_hash (JSON_stringify dataA),
             res_leaf = demo_hash (JSON_stringify dataA)\<rparr>], ledgerA) \<and>
   appendAll demo_hash [(dataB, Batch, None, None)] ledgerA =
     Inr ([\<lparr>res_index = 1,
             res_root = demo_hash (demo_hash (JSON_stringify dataA) @ demo_hash (JSON_stringify dataB)),
             res_leaf = demo_hash (JSON_stringify dataB)\<rparr>], ledgerAB) \<and>
   getProof ledgerA 0 =
     Some \<lparr>leaf = demo_hash (JSON_stringify dataA), proof_list = [], leafIndex = 0,
            root = demo_hash (JSON_stringify dataA)\<rparr> \<and>
   getProof ledgerAB 0 =
     Some \<lparr>leaf = demo_hash (JSON_stringify dataA), proof_list = [], leafIndex = 0,
            root = demo_hash (demo_hash (JSON_stringify dataA) @ demo_hash (JSON_stringify dataB))\<rparr> \<and>
   getProof ledgerAB 0 \<noteq> getProof ledgerA 0 \<and>
   \<not> verifyProof demo_hash (demo_hash (JSON_stringify dataA)) [] 0
       (demo_hash (demo_hash (JSON_stringify dataA) @ demo_hash (JSON_stringify dataB)))"
  unfolding appendAll_ledger1 appendAll_ledger2
  by (simp add: getProof_def ledgerA_def ledgerAB_def verifyProof_def demo_hash_def)

text \<open>
  C3 as amended: whatever the ledger, appends that succeed leave the hash, the index and
  the proof that \<open>getProof\<close> returns for an earlier leaf as they were, and replace its root by
  the root returned by the last append.
\<close>

theorem later_appends_keep_proof_replace_root:
  "appendAll H reqs db = Inr (rs, db') \<Longrightarrow> reqs \<noteq> [] \<Longrightarrow> getProof db i = Some p \<Longrightarrow>
   getProof db' i = Some (p\<lparr>root := res_root (last rs)\<rparr>)"
proof (induction reqs arbitrary: db rs p)
  case Nil
  then show ?case by simp
next
  case (Cons q reqs)
  obtain d ty b e where q: "q = (d, ty, b, e)" by (cases q)
  from Cons.prems(1) q obtain r db1 rs1 where
    ap: "appendLeaf H d ty b e db = Inr (r, db1)" and
    rest: "appendAll H reqs db1 = Inr (rs1, db')" and rs: "rs = r # rs1"
    by (auto split: sum.splits prod.splits)
  have g1: "getProof db1 i = Some (p\<lparr>root := res_root r\<rparr>)"
    using getProof_appendLeaf [OF ap Cons.prems(3)] .
  show ?case
  proof (cases "reqs = []")
    case True
    with rest rs g1 show ?thesis by simp
  next
    case False
    with rest have "rs1 \<noteq> []" by (cases reqs) (auto split: sum.splits prod.splits)
    with Cons.IH [OF rest False g1] rs show ?thesis by simp
  qed
qed

theorem later_appends_keep_proof_replace_root_witness:
  "getProof ledgerAB 0 =
     Some \<lparr>leaf = demo_hash (JSON_stringify dataA), proof_list = [], leafIndex = 0,
            root = demo_hash (demo_hash (JSON_stringify dataA) @ demo_hash (JSON_stringify dataB))\<rparr>"
proof -
  have ne: "[(dataB, Batch, None :: string option, None :: string option)] \<noteq> []" by simp
  have g: "getProof ledgerA 0 =
     Some \<lparr>leaf = demo_hash (JSON_stringify dataA), proof_list = [], leafIndex = 0,
            root = demo_hash (JSON_stringify dataA)\<rparr>"
    by (simp add: getProof_def ledgerA_def)
  show ?thesis
    using later_appends_keep_proof_replace_root [OF appendAll_ledger2 ne g] by simp
qed

section \<open>Tampering with a proof\<close>

lemma verifyLoop_leaf_changed:
  "c \<noteq> c' \<Longrightarrow> inj_on H (set (verifyInputs H c i p) \<union> set (verifyInputs H c' i p)) \<Longrightarrow>
   verifyLoop H c i p \<noteq> verifyLoop H c' i p"
proof (induction p arbitrary: c c' i)
  case Nil
  then show ?case by simp
next
  case (Cons s p)
  let ?x = "if i mod 2 = 0 then c @ s else s @ c"
  let ?x' = "if i mod 2 = 0 then c' @ s else s @ c'"
  have ne: "?x \<noteq> ?x'" using Cons.prems(1) by simp
  have mem: "?x \<in> set (verifyInputs H c i (s # p)) \<union> set (verifyInputs H c' i (s # p))"
    "?x' \<in> set (verifyInputs H c i (s # p)) \<union> set (verifyInputs H c' i (s # p))"
    by (simp_all add: Let_def)
  have hne: "H ?x \<noteq> H ?x'"
    using inj_onD [OF Cons.prems(2) _ mem] ne by blast
  have sub: "set (verifyInputs H (H ?x) (i div 2) p) \<union> set (verifyInputs H (H ?x') (i div 2) p)
      \<subseteq> set (verifyInputs H c i (s # p)) \<union> set (verifyInputs H c' i (s # p))"
    by (auto simp: Let_def)
  have "verifyLoop H (H ?x) (i div 2) p \<noteq> verifyLoop H (H ?x') (i div 2) p"
    using Cons.IH [OF hne inj_on_subset [OF Cons.prems(2) sub]] .
  then show ?case by (cases "i mod 2 = 0") (simp_all add: combineHashes_def)
qed

lemma verifyLoop_sibling_changed:
  "k < length p \<Longrightarrow> s' \<noteq> p ! k \<Longrightarrow>
   inj_on H (set (verifyInputs H c i p) \<union> set (verifyInputs H c i (p[k := s']))) \<Longrightarrow>
   verifyLoop H c i p \<noteq> verifyLoop H c i (p[k := s'])"
proof (induction p arbitrary: c i k)
  case Nil
  then show ?case by simp
next
  case (Cons s p)
  let ?x = "if i mod 2 = 0 then c @ s else s @ c"
  show ?case
  proof (cases k)
    case 0
    let ?x' = "if i mod 2 = 0 then c @ s' else s' @ c"
    have ne: "?x \<noteq> ?x'" using Cons.prems(2) 0 by simp
    have mem: "?x \<in> set (verifyInputs H c i (s # p)) \<union> set (verifyInputs H c i (s' # p))"
      "?x' \<in> set (verifyInputs H c i (s # p)) \<union> set (verifyInputs H c i (s' # p))"
      by (simp_all add: Let_def)
    have inj: "inj_on H (set (verifyInputs H c i (s # p)) \<union> set (verifyInputs H c i (s' # p)))"
      using Cons.prems(3) 0 by simp
    have hne: "H ?x \<noteq> H ?x'" using inj_onD [OF inj _ mem] ne by blast
    have sub: "set (verifyInputs H (H ?x) (i div 2) p) \<union> set (verifyInputs H (H ?x') (i div 2) p)
        \<subseteq> set (verifyInputs H c i (s # p)) \<union> set (verifyInputs H c i (s' # p))"
      by (auto simp: Let_def)
    have "verifyLoop H (H ?x) (i div 2) p \<noteq> verifyLoop H (H ?x') (i div 2) p"
      using verifyLoop_leaf_changed [OF hne inj_on_subset [OF inj sub]] .
    with 0 show ?thesis by (cases "i mod 2 = 0") (simp_all add: combineHashes_def)
  next
    case (Suc j)
    have j: "j < length p" "s' \<noteq> p ! j" using Cons.prems(1,2) Suc by simp_all
    have sub: "set (verifyInputs H (H ?x) (i div 2) p) \<union>
               set (verifyInputs H (H ?x) (i div 2) (p[j := s']))
        \<subseteq> set (verifyInputs H c i (s # p)) \<union> set (verifyInputs H c i ((s # p)[k := s']))"
      using Suc by (auto simp: Let_def)
    have "verifyLoop H (H ?x) (i div 2) p \<noteq> verifyLoop H (H ?x) (i div 2) (p[j := s'])"
      using Cons.IH [OF j inj_on_subset [OF Cons.prems(3) sub]] .
    with Suc show ?thesis by (cases "i mod 2 = 0") (simp_all add: combineHashes_def)
  qed
qed

lemma mod_power_step:
  fixes i j :: nat
  assumes "i mod 2 ^ Suc n = j mod 2 ^ Suc n"
  shows "i mod 2 = j mod 2" and "(i div 2) mod 2 ^ n = (j div 2) mod 2 ^ n"
proof -
  have e: "i mod (2 * 2 ^ n) = 2 * ((i div 2) mod 2 ^ n) + i mod 2"
    "j mod (2 * 2 ^ n) = 2 * ((j div 2) mod 2 ^ n) + j mod 2"
    by (simp_all add: mod_mult2_eq)
  with assms have eq: "2 * ((i div 2) mod 2 ^ n) + i mod 2 = 2 * ((j div 2) mod 2 ^ n) + j mod 2"
    by simp
  then have "(2 * ((i div 2) mod 2 ^ n) + i mod 2) mod 2 = (2 * ((j div 2) mod 2 ^ n) + j mod 2) mod 2"
    by simp
  then show b: "i mod 2 = j mod 2" by simp
  with eq show "(i div 2) mod 2 ^ n = (j div 2) mod 2 ^ n" by simp
qed

lemma verifyLoop_index_low_bits:
  "i mod 2 ^ length p = j mod 2 ^ length p \<Longrightarrow> verifyLoop H c i p = verifyLoop H c j p"
proof (induction p arbitrary: c i j)
  case Nil
  then show ?case by simp
next
  case (Cons s p)
  from Cons.prems have "i mod 2 ^ Suc (length p) = j mod 2 ^ Suc (length p)" by simp
  from mod_power_step [OF this] have b: "i mod 2 = j mod 2"
    and r: "(i div 2) mod 2 ^ length p = (j div 2) mod 2 ^ length p" by simp_all
  show ?case using Cons.IH [OF r] b by simp
qed

text \<open>
  Once the two computations differ they stay different, whatever the two indices, when
  every node has the length of its sibling and the hash function does not collide.
\<close>

lemma verifyLoop_diverged:
  "c \<noteq> c' \<Longrightarrow> map length (verifyNodes H c i p) = map length p \<Longrightarrow>
   map length (verifyNodes H c' i' p) = map length p \<Longrightarrow>
   inj_on H (set (verifyInputs H c i p) \<union> set (verifyInputs H c' i' p)) \<Longrightarrow>
   verifyLoop H c i p \<noteq> verifyLoop H c' i' p"
proof (induction p arbitrary: c c' i i')
  case Nil
  then show ?case by simp
next
  case (Cons s p)
  let ?x = "if i mod 2 = 0 then c @ s else s @ c"
  let ?x' = "if i' mod 2 = 0 then c' @ s else s @ c'"
  have lc: "length c = length s" "length c' = length s"
    using Cons.prems(2,3) by simp_all
  have ne: "?x \<noteq> ?x'" using Cons.prems(1) lc by auto
  have mem: "?x \<in> set (verifyInputs H c i (s # p)) \<union> set (verifyInputs H c' i' (s # p))"
    "?x' \<in> set (verifyInputs H c i (s # p)) \<union> set (verifyInputs H c' i' (s # p))"
    by (simp_all add: Let_def)
  have hne: "H ?x \<noteq> H ?x'"
    using inj_onD [OF Cons.prems(4) _ mem] ne by blast
  have sub: "set (verifyInputs H (H ?x) (i div 2) p) \<union> set (verifyInputs H (H ?x') (i' div 2) p)
      \<subseteq> set (verifyInputs H c i (s # p)) \<union> set (verifyInputs H c' i' (s # p))"
    by (auto simp: Let_def)
  have l1: "map length (verifyNodes H (H ?x) (i div 2) p) = map length p"
    using Cons.prems(2) by (cases "i mod 2 = 0") (simp_all add: combineHashes_def)
  have l2: "map length (verifyNodes H (H ?x') (i' div 2) p) = map length p"
    using Cons.prems(3) by (cases "i' mod 2 = 0") (simp_all add: combineHashes_def)
  have "verifyLoop H (H ?x) (i div 2) p \<noteq> verifyLoop H (H ?x') (i' div 2) p"
    using Cons.IH [OF hne l1 l2 inj_on_subset [OF Cons.prems(4) sub]] .
  then show ?case
    by (cases "i mod 2 = 0"; cases "i' mod 2 = 0") (simp_all add: combineHashes_def)
qed

text \<open>
  An index that first differs from the original one in bit \<open>k\<close>, a bit that the loop reads,
  changes the result when the node of level \<open>k\<close> is not equal to its sibling.
\<close>

lemma verifyLoop_index_changed:
  "k < length p \<Longrightarrow> i' mod 2 ^ k = i mod 2 ^ k \<Longrightarrow>
   (i' div 2 ^ k) mod 2 \<noteq> (i div 2 ^ k) mod 2 \<Longrightarrow>
   verifyNodes H c i p ! k \<noteq> p ! k \<Longrightarrow>
   map length (verifyNodes H c i p) = map length p \<Longrightarrow>
   map length (verifyNodes H c i' p) = map length p \<Longrightarrow>
   inj_on H (set (verifyInputs H c i p) \<union> set (verifyInputs H c i' p)) \<Longrightarrow>
   verifyLoop H c i p \<noteq> verifyLoop H c i' p"
proof (induction p arbitrary: c i i' k)
  case Nil
  then show ?case by simp
next
  case (Cons s p)
  let ?x = "if i mod 2 = 0 then c @ s else s @ c"
  let ?x' = "if i' mod 2 = 0 then c @ s else s @ c"
  have mem: "?x \<in> set (verifyInputs H c i (s # p)) \<union> set (verifyInputs H c i' (s # p))"
    "?x' \<in> set (verifyInputs H c i (s # p)) \<union> set (verifyInputs H c i' (s # p))"
    by (simp_all add: Let_def)
  have sub: "set (verifyInputs H (H ?x) (i div 2) p) \<union> set (verifyInputs H (H ?x') (i' div 2) p)
      \<subseteq> set (verifyInputs H c i (s # p)) \<union> set (verifyInputs H c i' (s # p))"
    by (auto simp: Let_def)
  have l1: "map length (verifyNodes H (H ?x) (i div 2) p) = map length p"
    using Cons.prems(5) by (cases "i mod 2 = 0") (simp_all add: combineHashes_def)
  have l2: "map length (verifyNodes H (H ?x') (i' div 2) p) = map length p"
    using Cons.prems(6) by (cases "i' mod 2 = 0") (simp_all add: combineHashes_def)
  show ?case
  proof (cases k)
    case 0
    with Cons.prems(3) have b: "i' mod 2 \<noteq> i mod 2" by simp
    from Cons.prems(4) 0 have cs: "c \<noteq> s" by simp
    from Cons.prems(5) have lc: "length c = length s" by simp
    have ne: "?x \<noteq> ?x'" using b cs lc by auto
    have hne: "H ?x \<noteq> H ?x'" using inj_onD [OF Cons.prems(7) _ mem] ne by blast
    have "verifyLoop H (H ?x) (i div 2) p \<noteq> verifyLoop H (H ?x') (i' div 2) p"
      using verifyLoop_diverged [OF hne l1 l2 inj_on_subset [OF Cons.prems(7) sub]] .
    then show ?thesis
      by (cases "i mod 2 = 0"; cases "i' mod 2 = 0") (simp_all add: combineHashes_def)
  next
    case (Suc j)
    from Cons.prems(2) Suc have "i' mod 2 ^ Suc j = i mod 2 ^ Suc j" by simp
    from mod_power_step [OF this] have b: "i' mod 2 = i mod 2"
      and r: "(i' div 2) mod 2 ^ j = (i div 2) mod 2 ^ j" by simp_all
    from b have xx: "?x' = ?x" by simp
    have j: "j < length p" using Cons.prems(1) Suc by simp
    have d: "((i' div 2) div 2 ^ j) mod 2 \<noteq> ((i div 2) div 2 ^ j) mod 2"
      using Cons.prems(3) Suc by (simp add: div_mult2_eq)
    have n: "verifyNodes H (H ?x) (i div 2) p ! j \<noteq> p ! j"
      using Cons.prems(4) Suc by (cases "i mod 2 = 0") (simp_all add: combineHashes_def)
    have "verifyLoop H (H ?x) (i div 2) p \<noteq> verifyLoop H (H ?x) (i' div 2) p"
      using Cons.IH [OF j r d n l1 l2 [unfolded xx] inj_on_subset [OF Cons.prems(7) sub [unfolded xx]]] .
    then show ?thesis using b
      by (cases "i mod 2 = 0") (simp_all add: combineHashes_def)
  qed
qed

lemma inj_on_demo_hash: "inj_on demo_hash S"
  by (rule inj_onI) (simp add: demo_hash_def)

text \<open>
  C4 as stated fails on the index: \<open>verifyProof\<close> reads one bit of the index for each
  sibling, so with no sibling every index is accepted, and with one sibling the indices 0
  and 2 are not told apart.
\<close>

theorem index_change_undetected_counterexample:
  "verifyProof demo_hash ''ab'' [] 0 ''ab'' \<and> verifyProof demo_hash ''ab'' [] 1 ''ab'' \<and>
   verifyProof demo_hash ''a'' [''b''] 0 (demo_hash ''ab'') \<and>
   verifyProof demo_hash ''a'' [''b''] 2 (demo_hash ''ab'')"
  by (simp add: verifyProof_def combineHashes_def)

text \<open>
  C4 as amended. When \<open>verifyProof\<close> accepts a quadruple: a different root is rejected; a
  different leaf hash, or a different sibling at one position, is rejected provided the hash
  function has no collision among the strings hashed along the original and the altered
  path; an index that agrees with the original one modulo 2 to the number of siblings is
  still accepted; and an index that first differs from the original one in a bit \<open>k\<close> below
  the number of siblings is rejected provided the node of level \<open>k\<close> is not equal to its
  sibling, every node on the two paths has the length of its sibling, and the hash function
  has no collision among the strings hashed along the two paths.
\<close>

theorem tamper_detection:
  "verifyProof H lf p i r \<Longrightarrow>
   (\<forall>r'. r' \<noteq> r \<longrightarrow> \<not> verifyProof H lf p i r') \<and>
   (\<forall>lf'. lf' \<noteq> lf \<and> inj_on H (set (verifyInputs H lf i p) \<union> set (verifyInputs H lf' i p))
       \<longrightarrow> \<not> verifyProof H lf' p i r) \<and>
   (\<forall>k s'. k < length p \<and> s' \<noteq> p ! k \<and>
       inj_on H (set (verifyInputs H lf i p) \<union> set (verifyInputs H lf i (p[k := s'])))
       \<longrightarrow> \<not> verifyProof H lf (p[k := s']) i r) \<and>
   (\<forall>i'. i' mod 2 ^ length p = i mod 2 ^ length p \<longrightarrow> verifyProof H lf p i' r) \<and>
   (\<forall>i' k. k < length p \<and> i' mod 2 ^ k = i mod 2 ^ k \<and>
       (i' div 2 ^ k) mod 2 \<noteq> (i div 2 ^ k) mod 2 \<and>
       verifyNodes H lf i p ! k \<noteq> p ! k \<and>
       map length (verifyNodes H lf i p) = map length p \<and>
       map length (verifyNodes H lf i' p) = map length p \<and>
       inj_on H (set (verifyInputs H lf i p) \<union> set (verifyInputs H lf i' p))
       \<longrightarrow> \<not> verifyProof H lf p i' r)"
proof -
  assume "verifyProof H lf p i r"
  then have v: "verifyLoop H lf i p = r" by (simp add: verifyProof_def)
  have 1: "\<forall>r'. r' \<noteq> r \<longrightarrow> \<not> verifyProof H lf p i r'"
    using v by (simp add: verifyProof_def)
  have 2: "\<forall>lf'. lf' \<noteq> lf \<and>
      inj_on H (set (verifyInputs H lf i p) \<union> set (verifyInputs H lf' i p))
       \<longrightarrow> \<not> verifyProof H lf' p i r"
  proof (intro allI impI, elim conjE)
    fix lf'
    assume ne: "lf' \<noteq> lf"
      and inj: "inj_on H (set (verifyInputs H lf i p) \<union> set (verifyInputs H lf' i p))"
    from ne have "lf \<noteq> lf'" by simp
    then have "verifyLoop H lf i p \<noteq> verifyLoop H lf' i p"
      using inj by (rule verifyLoop_leaf_changed)
    then have "verifyLoop H lf' i p \<noteq> r" unfolding v [symmetric] by simp
    then show "\<not> verifyProof H lf' p i r" by (simp only: verifyProof_def not_False_eq_True)
  qed
  have 3: "\<forall>k s'. k < length p \<and> s' \<noteq> p ! k \<and>
       inj_on H (set (verifyInputs H lf i p) \<union> set (verifyInputs H lf i (p[k := s'])))
       \<longrightarrow> \<not> verifyProof H lf (p[k := s']) i r"
  proof (intro allI impI, elim conjE)
    fix k s'
    assume "k < length p" and "s' \<noteq> p ! k"
      and "inj_on H (set (verifyInputs H lf i p) \<union> set (verifyInputs H lf i (p[k := s'])))"
    then have "verifyLoop H lf i p \<noteq> verifyLoop H lf i (p[k := s'])"
      by (rule verifyLoop_sibling_changed)
    then have "verifyLoop H lf i (p[k := s']) \<noteq> r" unfolding v [symmetric] by simp
    then show "\<not> verifyProof H lf (p[k := s']) i r"
      by (simp only: verifyProof_def not_False_eq_True)
  qed
  have 4: "\<forall>i'. i' mod 2 ^ length p = i mod 2 ^ length p \<longrightarrow> verifyProof H lf p i' r"
  proof (intro allI impI)
    fix i' :: nat
    assume "i' mod 2 ^ length p = i mod 2 ^ length p"
    then have "verifyLoop H lf i' p = verifyLoop H lf i p" by (rule verifyLoop_index_low_bits)
    with v show "verifyProof H lf p i' r" by (simp only: verifyProof_def)
  qed
  have 5: "\<forall>i' k. k < length p \<and> i' mod 2 ^ k = i mod 2 ^ k \<and>
       (i' div 2 ^ k) mod 2 \<noteq> (i div 2 ^ k) mod 2 \<and>
       verifyNodes H lf i p ! k \<noteq> p ! k \<and>
       map length (verifyNodes H lf i p) = map length p \<and>
       map length (verifyNodes H lf i' p) = map length p \<and>
       inj_on H (set (verifyInputs H lf i p) \<union> set (verifyInputs H lf i' p))
       \<longrightarrow> \<not> verifyProof H lf p i' r"
  proof (intro allI impI, elim conjE)
    fix i' k
    assume "k < length p" and "i' mod 2 ^ k = i mod 2 ^ k"
      and "(i' div 2 ^ k) mod 2 \<noteq> (i div 2 ^ k) mod 2"
      and "verifyNodes H lf i p ! k \<noteq> p ! k"
      and "map length (verifyNodes H lf i p) = map length p"
      and "map length (verifyNodes H lf i' p) = map length p"
      and "inj_on H (set (verifyInputs H lf i p) \<union> set (verifyInputs H lf i' p))"
    then have "verifyLoop H lf i p \<noteq> verifyLoop H lf i' p"
      by (rule verifyLoop_index_changed)
    then have "verifyLoop H lf i' p \<noteq> r" unfolding v [symmetric] by simp
    then show "\<not> verifyProof H lf p i' r" by (simp only: verifyProof_def not_False_eq_True)
  qed
  show ?thesis by (rule conjI [OF 1 conjI [OF 2 conjI [OF 3 conjI [OF 4 5]]]])
qed

theorem tamper_detection_witness:
  "verifyProof demo_hash ''a'' [''b''] 0 (demo_hash ''ab'') \<and>
   \<not> verifyProof demo_hash ''a'' [''b''] 0 (demo_hash ''ac'') \<and>
   \<not> verifyProof demo_hash ''c'' [''b''] 0 (demo_hash ''ab'') \<and>
   \<not> verifyProof demo_hash ''a'' [''d''] 0 (demo_hash ''ab'') \<and>
   verifyProof demo_hash ''a'' [''b''] 2 (demo_hash ''ab'') \<and>
   \<not> verifyProof demo_hash ''a'' [''b''] 1 (demo_hash ''ab'')"
proof -
  have v: "verifyProof demo_hash ''a'' [''b''] 0 (demo_hash ''ab'')"
    by (simp add: verifyProof_def combineHashes_def)
  note t = tamper_detection [OF v]
  have ne: "demo_hash ''ac'' \<noteq> demo_hash ''ab''" by (simp add: demo_hash_def)
  have 1: "\<not> verifyProof demo_hash ''a'' [''b''] 0 (demo_hash ''ac'')"
    by (rule mp [OF t [THEN conjunct1, THEN spec, of "demo_hash ''ac''"] ne])
  have 2: "\<not> verifyProof demo_hash ''c'' [''b''] 0 (demo_hash ''ab'')"
    by (rule mp [OF t [THEN conjunct2, THEN conjunct1, THEN spec, of "''c''"]])
      (simp add: inj_on_demo_hash del: inj_on_insert)
  have "\<not> verifyProof demo_hash ''a'' ([''b''][0 := ''d'']) 0 (demo_hash ''ab'')"
    by (rule mp [OF t [THEN conjunct2, THEN conjunct2, THEN conjunct1, THEN spec, THEN spec,
            of 0 "''d''"]])
      (simp add: inj_on_demo_hash del: inj_on_insert)
  then have 3: "\<not> verifyProof demo_hash ''a'' [''d''] 0 (demo_hash ''ab'')" by simp
  have 4: "verifyProof demo_hash ''a'' [''b''] 2 (demo_hash ''ab'')"
    by (rule mp [OF t [THEN conjunct2, THEN conjunct2, THEN conjunct2, THEN conjunct1, THEN spec,
            of 2]]) simp
  have 5: "\<not> verifyProof demo_hash ''a'' [''b''] 1 (demo_hash ''ab'')"
    by (rule mp [OF t [THEN conjunct2, THEN conjunct2, THEN conjunct2, THEN conjunct2, THEN spec,
            THEN spec, of 0 1]])
      (simp add: inj_on_demo_hash del: inj_on_insert)
  show ?thesis by (rule conjI [OF v conjI [OF 1 conjI [OF 2 conjI [OF 3 conjI [OF 4 5]]]]])
qed

section \<open>Serialisation and key order\<close>

lemma map_fst_map_prod: "map fst (map (map_prod id f) xs) = map fst xs"
  by (induction xs) auto

lemma map_of_map_prod: "map_of (map (map_prod id f) xs) k = map_option f (map_of xs k)"
  by (induction xs) auto

lemma distinct_fst_sort_key:
  "distinct (map fst (sort_key fst xs)) = distinct (map fst xs)"
  by (induction xs) (auto simp: distinct_insort_key)

lemma map_of_sort_key: "distinct (map fst xs) \<Longrightarrow> map_of (sort_key fst xs) = map_of xs"
  by (subst map_of_inject_set) (simp_all add: distinct_fst_sort_key)

lemma map_fst_insort_key: "map fst (insort_key fst x xs) = insort (fst x) (map fst xs)"
  by (induction xs) auto

lemma map_fst_sort_key: "map fst (sort_key fst xs) = sort (map fst xs)"
  by (induction xs) (auto simp: map_fst_insort_key)

lemma members_cong:
  "(\<And>k. map_of a k = map_of b k) \<Longrightarrow> members (Some K) a = members (Some K) b"
  by (simp add: members_def)

lemma distinct_keys_JObjD:
  "distinct_keys (JObj kvs) \<Longrightarrow> (k, v) \<in> set kvs \<Longrightarrow> distinct_keys v"
  by (auto simp: list_all_iff)

lemma distinct_keys_JArrD: "distinct_keys (JArr xs) \<Longrightarrow> x \<in> set xs \<Longrightarrow> distinct_keys x"
  by (auto simp: list_all_iff)

text \<open>
  With an array replacer the output for an object is written key by key of the replacer, so
  it does not depend on the order of the properties.
\<close>

lemma stringify_sort_keys:
  "distinct_keys v \<Longrightarrow> stringify (Some K) (sort_keys v) = stringify (Some K) v"
proof (induction v)
  case (JArr xs)
  have "map (stringify (Some K) \<circ> sort_keys) xs = map (stringify (Some K)) xs"
    using JArr.IH distinct_keys_JArrD [OF JArr.prems] by (intro map_cong) simp_all
  then show ?case by (simp only: sort_keys.simps stringify.simps map_map)
next
  case (JObj kvs)
  have d: "distinct (map fst kvs)" using JObj.prems by simp
  have "members (Some K)
          (map (map_prod id (stringify (Some K)))
             (sort_key fst (map (map_prod id sort_keys) kvs))) =
        members (Some K) (map (map_prod id (stringify (Some K))) kvs)"
  proof (rule members_cong)
    fix k
    have "map_of (sort_key fst (map (map_prod id sort_keys) kvs)) k =
          map_option sort_keys (map_of kvs k)"
      using d by (simp add: map_of_sort_key map_fst_map_prod map_of_map_prod)
    moreover have "map_option (stringify (Some K) \<circ> sort_keys) (map_of kvs k) =
                   map_option (stringify (Some K)) (map_of kvs k)"
    proof (cases "map_of kvs k")
      case None
      then show ?thesis by simp
    next
      case (Some v)
      then have m: "(k, v) \<in> set kvs" by (rule map_of_SomeD)
      then have "distinct_keys v" using JObj.prems distinct_keys_JObjD by blast
      moreover from m have "v \<in> Basic_BNFs.snds (k, v)" by simp
      ultimately have "stringify (Some K) (sort_keys v) = stringify (Some K) v"
        using JObj.IH m by blast
      with Some show ?thesis by simp
    qed
    ultimately show "map_of (map (map_prod id (stringify (Some K)))
                       (sort_key fst (map (map_prod id sort_keys) kvs))) k =
                     map_of (map (map_prod id (stringify (Some K))) kvs) k"
      by (simp add: map_of_map_prod option.map_comp)
  qed
  then show ?case by simp
qed simp_all

lemma sorted_Object_keys_sort_keys:
  "map_sum id sort (Object_keys (sort_keys v)) = map_sum id sort (Object_keys v)"
proof (cases v)
  case (JObj kvs)
  have "sort (sort (map fst kvs)) = sort (map fst kvs)"
    by (rule sort_key_id_if_sorted) simp
  with JObj show ?thesis
    by (simp add: Object_keys_def map_fst_sort_key map_fst_map_prod)
qed (simp_all add: Object_keys_def)

lemma hashData_sort_keys:
  assumes "distinct_keys v"
  shows "hashData H (sort_keys v) = hashData H v"
proof (cases "\<exists>s. v = JStr s")
  case True
  then show ?thesis by auto
next
  case False
  then have nv: "\<And>s. sort_keys v \<noteq> JStr s" by (cases v) auto
  have h: "\<And>w. (\<And>s. w \<noteq> JStr s) \<Longrightarrow>
      hashData H w = (case Object_keys w of Inl e \<Rightarrow> Inl e
                      | Inr ks \<Rightarrow> Inr (H (stringify (Some (sort ks)) w)))"
    subgoal for w by (cases w) (auto simp: hashData_def)
    done
  show ?thesis
  proof (cases "Object_keys v")
    case (Inl e)
    with sorted_Object_keys_sort_keys [of v] obtain e' where "Object_keys (sort_keys v) = Inl e'"
      by (cases "Object_keys (sort_keys v)") auto
    with Inl show ?thesis using h [of v] h [of "sort_keys v"] False nv by (cases e; cases e') simp
  next
    case (Inr ks)
    with sorted_Object_keys_sort_keys [of v] obtain ks' where
      ks': "Object_keys (sort_keys v) = Inr ks'" "sort ks' = sort ks"
      by (cases "Object_keys (sort_keys v)") auto
    with Inr show ?thesis
      using h [of v] h [of "sort_keys v"] False nv stringify_sort_keys [OF assms, of "sort ks"]
      by simp
  qed
qed

lemma truthy_sort_keys: "truthy (sort_keys v) = truthy v"
  by (cases v) (simp_all add: truthy_def)

lemma map_filter_Pair:
  "map (map_prod id S) (List.map_filter (\<lambda>(k, v). map_option (Pair k) v) c) =
   List.map_filter (\<lambda>(k, v). map_option (Pair k) v) (map (map_prod id (map_option S)) c)"
  by (induction c) (auto simp: List.map_filter_simps split: option.splits)

lemma createBatchHash_cong:
  assumes S: "\<And>k K. map_option (stringify (Some K)) (map_of a k) =
                      map_option (stringify (Some K)) (map_of b k)"
    and T: "\<And>k. map_option truthy (map_of a k) = map_option truthy (map_of b k)"
  shows "createBatchHash H now a = createBatchHash H now b"
proof -
  let ?ts = "\<lambda>m. case map_of m ''timestamp'' of
                     Some t \<Rightarrow> if truthy t then t else JStr now
                   | None \<Rightarrow> JStr now"
  let ?c = "\<lambda>m. [(''batch_id'', map_of m ''batch_id''),
             (''farmer_id'', map_of m ''farmer_id''),
             (''crop'', map_of m ''crop''),
             (''location'', map_of m ''location''),
             (''metadata'', map_of m ''metadata''),
             (''timestamp'', Some (?ts m))]"
  let ?mf = "List.map_filter (\<lambda>(k, v). map_option (Pair k) v)"
  have k: "map fst (?c b) = map fst (?c a)" by simp
  define K where "K = sort (map fst (?c a))"
  have ts: "stringify (Some K) (?ts a) = stringify (Some K) (?ts b)"
    using S [of K "''timestamp''"] T [of "''timestamp''"]
    by (cases "map_of a ''timestamp''"; cases "map_of b ''timestamp''") auto
  have "map (map_prod id (map_option (stringify (Some K)))) (?c a) =
        map (map_prod id (map_option (stringify (Some K)))) (?c b)"
    using S [of K] ts by simp
  then have "map (map_prod id (stringify (Some K))) (?mf (?c a)) =
             map (map_prod id (stringify (Some K))) (?mf (?c b))"
    by (simp only: map_filter_Pair)
  then have e: "stringify (Some K) (JObj (?mf (?c a))) = stringify (Some K) (JObj (?mf (?c b)))"
    by (simp only: stringify.simps)
  have "createBatchHash H now a = H (stringify (Some K) (JObj (?mf (?c a))))"
    by (simp only: createBatchHash_def Let_def K_def)
  moreover have "createBatchHash H now b = H (stringify (Some K) (JObj (?mf (?c b))))"
    by (simp only: createBatchHash_def Let_def K_def k)
  ultimately show ?thesis using e by (simp only:)
qed

lemma same_sets_lookup:
  assumes da: "distinct_keys (JObj a)" and db: "distinct_keys (JObj b)"
    and eq: "sort_keys (JObj a) = sort_keys (JObj b)"
  shows "map_option sort_keys (map_of a k) = map_option sort_keys (map_of b k)"
proof -
  have "map_of (sort_key fst (map (map_prod id sort_keys) a)) k =
        map_of (sort_key fst (map (map_prod id sort_keys) b)) k"
    using eq by simp
  then show ?thesis
    using da db by (simp add: map_of_sort_key map_fst_map_prod map_of_map_prod)
qed

text \<open>
  C5 as stated fails for the leaf hash: \<open>appendLeaf\<close> hashes \<open>JSON.stringify(leafData)\<close>, which
  writes the properties in the order in which the object has them. The two records below
  have the same keys and values, and their serialisations and leaf hashes differ.
\<close>

theorem leaf_hash_depends_on_key_order_counterexample:
  "distinct_keys (JObj propsA) \<and> distinct_keys (JObj propsB) \<and>
   sort_keys (JObj propsA) = sort_keys (JObj propsB) \<and>
   JSON_stringify (JObj propsA) \<noteq> JSON_stringify (JObj propsB) \<and>
   map_sum id (res_leaf \<circ> fst) (appendLeaf demo_hash (JObj propsA) Batch None None []) \<noteq>
   map_sum id (res_leaf \<circ> fst) (appendLeaf demo_hash (JObj propsB) Batch None None [])"
  by (simp add: propsA_def propsB_def members_def quote_def quote_char_def ledger_defs
      demo_hash_def)

text \<open>
  C5 as amended: for two values with the same keys and values at every depth, \<open>hashData\<close>
  returns the same result, and \<open>createBatchHash\<close> of two such objects is the same hash.
\<close>

theorem hashData_key_order_independent:
  "distinct_keys a \<Longrightarrow> distinct_keys b \<Longrightarrow> sort_keys a = sort_keys b \<Longrightarrow>
   hashData H a = hashData H b \<and>
   (\<forall>kvs kvs'. a = JObj kvs \<and> b = JObj kvs' \<longrightarrow>
      createBatchHash H now kvs = createBatchHash H now kvs')"
proof -
  assume da: "distinct_keys a" and db: "distinct_keys b" and eq: "sort_keys a = sort_keys b"
  have 1: "hashData H a = hashData H b"
    using hashData_sort_keys [OF da, of H] hashData_sort_keys [OF db, of H] eq by simp
  have 2: "createBatchHash H now kvs = createBatchHash H now kvs'"
    if ab: "a = JObj kvs" "b = JObj kvs'" for kvs kvs'
  proof (rule createBatchHash_cong)
    fix k
    have l: "map_option sort_keys (map_of kvs k) = map_option sort_keys (map_of kvs' k)"
      by (rule same_sets_lookup) (use da db eq ab in simp_all)
    show "map_option truthy (map_of kvs k) = map_option truthy (map_of kvs' k)"
    proof (cases "map_of kvs k")
      case None
      with l show ?thesis by (cases "map_of kvs' k") auto
    next
      case (Some v)
      with l obtain v' where v': "map_of kvs' k = Some v'" "sort_keys v = sort_keys v'"
        by (cases "map_of kvs' k") auto
      have "truthy v = truthy v'"
        using truthy_sort_keys [of v] truthy_sort_keys [of v'] v'(2) by simp
      with Some v'(1) show ?thesis by simp
    qed
    fix K
    show "map_option (stringify (Some K)) (map_of kvs k) =
          map_option (stringify (Some K)) (map_of kvs' k)"
    proof (cases "map_of kvs k")
      case None
      with l show ?thesis by (cases "map_of kvs' k") auto
    next
      case (Some v)
      with l obtain v' where v': "map_of kvs' k = Some v'" "sort_keys v = sort_keys v'"
        by (cases "map_of kvs' k") auto
      have "distinct_keys v"
        by (rule distinct_keys_JObjD [OF da [unfolded ab] map_of_SomeD [OF Some]])
      moreover have "distinct_keys v'"
        by (rule distinct_keys_JObjD [OF db [unfolded ab] map_of_SomeD [OF v'(1)]])
      ultimately have "stringify (Some K) v = stringify (Some K) v'"
        using stringify_sort_keys [of v K] stringify_sort_keys [of v' K] v'(2) by simp
      with Some v'(1) show ?thesis by simp
    qed
  qed
  from 1 2 show ?thesis by blast
qed

theorem hashData_key_order_independent_witness:
  "hashData demo_hash (JObj propsA) = hashData demo_hash (JObj propsB) \<and>
   createBatchHash demo_hash ''2024-05-01T00:00:00.000Z'' propsA =
   createBatchHash demo_hash ''2024-05-01T00:00:00.000Z'' propsB"
proof -
  have a: "distinct_keys (JObj propsA)" by (simp add: propsA_def)
  have b: "distinct_keys (JObj propsB)" by (simp add: propsB_def)
  have e: "sort_keys (JObj propsA) = sort_keys (JObj propsB)"
    by (simp add: propsA_def propsB_def)
  from hashData_key_order_independent [OF a b e, of demo_hash "''2024-05-01T00:00:00.000Z''"]
  show ?thesis by blast
qed

section \<open>Signatures\<close>

lemma hex_value_hex_char: "n < 16 \<Longrightarrow> hex_value (hex_char n) = Some n"
  by (auto simp: hex_value_def hex_char_def Let_def)

lemma byte_split: "(word_of_nat (16 * (unat b div 16) + unat b mod 16) :: 8 word) = b"
  by simp

lemma unat_byte_div: "unat (b :: 8 word) div 16 < 16"
proof -
  have "unat b < 2 ^ LENGTH(8)" by (rule unsigned_less)
  then have "unat b < 256" by simp
  then show ?thesis by simp
qed

text \<open>Decoding the hexadecimal text of a buffer gives the buffer back.\<close>

lemma Buffer_from_hex_toString_hex: "Buffer_from_hex (toString_hex bs) = bs"
proof (induction bs)
  case Nil
  then show ?case by (simp add: toString_hex_def)
next
  case (Cons b bs)
  have "toString_hex (b # bs) =
      hex_char (unat b div 16) # hex_char (unat b mod 16) # toString_hex bs"
    by (simp add: toString_hex_def)
  then show ?case
    using Cons.IH by (simp add: hex_value_hex_char unat_byte_div byte_split)
qed

text \<open>A buffer of \<open>n\<close> decoded bytes needs \<open>2 * n\<close> leading hexadecimal digits.\<close>

lemma Buffer_from_hex_digits:
  "n \<le> length (Buffer_from_hex s) \<Longrightarrow> i < 2 * n \<Longrightarrow>
   i < length s \<and> hex_value (s ! i) \<noteq> None"
proof (induction s arbitrary: n i rule: Buffer_from_hex.induct)
  case (1 a b rest)
  show ?case
  proof (cases "hex_value a = None \<or> hex_value b = None")
    case True
    then have "Buffer_from_hex (a # b # rest) = []" by (auto split: option.splits)
    with "1.prems" show ?thesis by simp
  next
    case False
    then obtain x y where xy: "hex_value a = Some x" "hex_value b = Some y" by auto
    then have len: "length (Buffer_from_hex (a # b # rest)) = Suc (length (Buffer_from_hex rest))"
      by simp
    show ?thesis
    proof (cases "i < 2")
      case True
      then have "i = 0 \<or> i = 1" by auto
      with xy show ?thesis by auto
    next
      case False
      then obtain j where j: "i = Suc (Suc j)" by (metis Suc_lessI less_2_cases_iff not0_implies_Suc not_less_eq)
      from "1.prems" len obtain m where m: "n = Suc m" "m \<le> length (Buffer_from_hex rest)"
        using False by (cases n) auto
      with "1.prems"(2) j have "j < 2 * m" by simp
      from "1.IH" [OF refl xy m(2) this] j show ?thesis by simp
    qed
  qed
qed simp_all


lemma Buffer_from_hex_non_hex: "hex_value a = None \<Longrightarrow> Buffer_from_hex (a # rest) = []"
  by (cases rest) simp_all

lemma Buffer_from_hex_trailing:
  "hex_value a = None \<Longrightarrow> Buffer_from_hex (toString_hex bs @ a # rest) = bs"
proof (induction bs)
  case Nil
  then show ?case by (simp add: toString_hex_def Buffer_from_hex_non_hex)
next
  case (Cons b bs)
  have "toString_hex (b # bs) @ a # rest =
      hex_char (unat b div 16) # hex_char (unat b mod 16) # (toString_hex bs @ a # rest)"
    by (simp add: toString_hex_def)
  then show ?case
    using Cons by (simp add: hex_value_hex_char unat_byte_div byte_split)
qed

lemma Buffer_from_hex_odd: "Buffer_from_hex (toString_hex bs @ [a]) = bs"
proof (induction bs)
  case Nil
  then show ?case by (simp add: toString_hex_def)
next
  case (Cons b bs)
  have "toString_hex (b # bs) @ [a] =
      hex_char (unat b div 16) # hex_char (unat b mod 16) # (toString_hex bs @ [a])"
    by (simp add: toString_hex_def)
  then show ?case
    using Cons by (simp add: hex_value_hex_char unat_byte_div byte_split)
qed

lemma length_demo_digest: "length (demo_digest s) = 32"
  by (simp add: demo_digest_def)



lemma demo_key_ok: "length demo_key = 32" "demo_key \<noteq> replicate 32 0"
  by (simp_all add: demo_key_def)



lemma demo_verify_bytes:
  "ecdsaVerify demo_secp256k1 (demo_digest m @ demo_key) (demo_digest m) (2 # demo_key) = Inr True"
  by (simp add: demo_secp256k1_def demo_key_ok length_demo_digest)








text \<open>
  C9 as stated fails: malformed hexadecimal text is not rejected. \<open>Buffer.from\<close> stops at
  the first pair that is not two hexadecimal digits and drops a trailing single character,
  so a valid signature followed by \<open>zz\<close>, or by one more digit, is accepted.
\<close>

theorem malformed_hex_accepted_counterexample:
  "hex_value CHR ''z'' = None \<and>
   verifySignature demo_secp256k1 demo_digest ''jute'' (demo_signature @ ''zz'') demo_publicKey \<and>
   odd (length (demo_signature @ ''0'')) \<and>
   verifySignature demo_secp256k1 demo_digest ''jute'' (demo_signature @ ''0'') demo_publicKey"
proof -
  have z: "hex_value CHR ''z'' = None" by (simp add: hex_value_def)
  have 1: "verifySignature demo_secp256k1 demo_digest ''jute'' (demo_signature @ ''zz'')
      demo_publicKey"
    by (simp add: verifySignature_def verifySignature_try_def demo_signature_def
        demo_publicKey_def Buffer_from_hex_toString_hex Buffer_from_hex_trailing [OF z]
        demo_verify_bytes)
  have 2: "verifySignature demo_secp256k1 demo_digest ''jute'' (demo_signature @ ''0'')
      demo_publicKey"
    by (simp add: verifySignature_def verifySignature_try_def demo_signature_def
        demo_publicKey_def Buffer_from_hex_toString_hex Buffer_from_hex_odd demo_verify_bytes)
  have 3: "odd (length (demo_signature @ ''0''))"
    by (simp add: demo_signature_def toString_hex_def length_concat comp_def sum_list_triv
        length_demo_digest demo_key_ok)
  from z 1 3 2 show ?thesis by blast
qed

text \<open>
  C9 as amended. \<open>verifySignature\<close> always returns a boolean: it is true exactly when the
  library returns true on the decoded buffers, and an exception of the library gives false.
  If the library accepts only signatures of 64 bytes and keys of 33 or 65 bytes, then a
  signature text without 128 leading hexadecimal digits, or a key text without 66, gives
  false.
\<close>

theorem verifySignature_total:
  "(verifySignature L D dat sg pk \<longleftrightarrow>
      ecdsaVerify L (Buffer_from_hex sg) (D dat) (Buffer_from_hex pk) = Inr True) \<and>
   (\<forall>e. verifySignature_try L D dat sg pk = Inl e \<longrightarrow> \<not> verifySignature L D dat sg pk) \<and>
   ((\<forall>s h p. length s \<noteq> 64 \<or> (length p \<noteq> 33 \<and> length p \<noteq> 65) \<longrightarrow>
        ecdsaVerify L s h p \<noteq> Inr True) \<and>
    (length sg < 128 \<or> (\<exists>i<128. hex_value (sg ! i) = None) \<or>
     length pk < 66 \<or> (\<exists>i<66. hex_value (pk ! i) = None))
    \<longrightarrow> \<not> verifySignature L D dat sg pk)"
proof -
  have 1: "verifySignature L D dat sg pk \<longleftrightarrow>
      ecdsaVerify L (Buffer_from_hex sg) (D dat) (Buffer_from_hex pk) = Inr True"
    by (auto simp: verifySignature_def verifySignature_try_def split: sum.splits)
  have 2: "\<forall>e. verifySignature_try L D dat sg pk = Inl e \<longrightarrow> \<not> verifySignature L D dat sg pk"
    by (simp add: verifySignature_def)
  have 3: "(\<forall>s h p. length s \<noteq> 64 \<or> (length p \<noteq> 33 \<and> length p \<noteq> 65) \<longrightarrow>
        ecdsaVerify L s h p \<noteq> Inr True) \<and>
    (length sg < 128 \<or> (\<exists>i<128. hex_value (sg ! i) = None) \<or>
     length pk < 66 \<or> (\<exists>i<66. hex_value (pk ! i) = None))
    \<longrightarrow> \<not> verifySignature L D dat sg pk"
  proof (intro impI notI, elim conjE)
    assume lib: "\<forall>s h p. length s \<noteq> 64 \<or> (length p \<noteq> 33 \<and> length p \<noteq> 65) \<longrightarrow>
        ecdsaVerify L s h p \<noteq> Inr True"
      and bad: "length sg < 128 \<or> (\<exists>i<128. hex_value (sg ! i) = None) \<or>
        length pk < 66 \<or> (\<exists>i<66. hex_value (pk ! i) = None)"
      and v: "verifySignature L D dat sg pk"
    from v 1 have t: "ecdsaVerify L (Buffer_from_hex sg) (D dat) (Buffer_from_hex pk) = Inr True"
      by simp
    with lib have ls: "length (Buffer_from_hex sg) = 64"
      and lp: "length (Buffer_from_hex pk) = 33 \<or> length (Buffer_from_hex pk) = 65"
      by blast+
    have sgd: "i < length sg \<and> hex_value (sg ! i) \<noteq> None" if "i < 128" for i
      using Buffer_from_hex_digits [of 64 sg i] ls that by simp
    have pkd: "i < length pk \<and> hex_value (pk ! i) \<noteq> None" if "i < 66" for i
      using Buffer_from_hex_digits [of 33 pk i] lp that by auto
    from sgd [of 127] have "\<not> length sg < 128" by simp
    moreover from pkd [of 65] have "\<not> length pk < 66" by simp
    moreover from sgd have "\<not> (\<exists>i<128. hex_value (sg ! i) = None)" by blast
    moreover from pkd have "\<not> (\<exists>i<66. hex_value (pk ! i) = None)" by blast
    ultimately show False using bad by blast
  qed
  show ?thesis by (rule conjI [OF 1 conjI [OF 2 3]])
qed

theorem verifySignature_total_witness:
  "\<not> verifySignature demo_secp256k1 demo_digest ''jute'' (''zz'' @ demo_signature) demo_publicKey \<and>
   \<not> verifySignature demo_secp256k1 demo_digest ''jute'' ''6a75'' demo_publicKey"
proof -
  have lib: "\<forall>s h p. length s \<noteq> 64 \<or> (length p \<noteq> 33 \<and> length p \<noteq> 65) \<longrightarrow>
        ecdsaVerify demo_secp256k1 s h p \<noteq> Inr True"
    by (auto simp: demo_secp256k1_def)
  have b1: "\<exists>i<128. hex_value ((''zz'' @ demo_signature) ! i) = None"
    by (rule exI [of _ 0]) (simp add: hex_value_def)
  have b2: "length ''6a75'' < (128 :: nat)" by simp
  note t = verifySignature_total [THEN conjunct2, THEN conjunct2]
  have 1: "\<not> verifySignature demo_secp256k1 demo_digest ''jute'' (''zz'' @ demo_signature)
      demo_publicKey"
    by (rule mp [OF t]) (use lib b1 in blast)
  have 2: "\<not> verifySignature demo_secp256k1 demo_digest ''jute'' ''6a75'' demo_publicKey"
    by (rule mp [OF t]) (use lib b2 in blast)
  from 1 2 show ?thesis by (rule conjI)
qed

section \<open>The verification route\<close>

text \<open>
  C7: for a request that passes the schema, when the batch is found, the signature of the
  QR payload (if one was sent) is valid and the inclusion proof verifies, the route answers
  with \<open>verified = true\<close> whatever the anchor check says: mode \<open>merkle\<close> when the batch
  has no blockchain transaction, mode \<open>both\<close> when it has one. The anchor check only
  chooses the mode.
\<close>

theorem anchor_check_never_rejects:
  "req_batch_id \<noteq> Some [] \<Longrightarrow>
   batchToVerify batches qr_json req_batch_id = Some batch \<Longrightarrow>
   (\<forall>qrPayload. qr_json = Some qrPayload \<longrightarrow> verifyQRSignature L D qrPayload batch) \<Longrightarrow>
   verifyMerkleInclusion H db batch \<Longrightarrow>
   \<exists>res. verifyRoute H L D batches db qr_json req_batch_id = Inr res \<and>
     verified res \<and>
     mode res = (if verifyBlockchainAnchor batch then both else merkle)"
proof -
  assume v: "req_batch_id \<noteq> Some []"
    and b: "batchToVerify batches qr_json req_batch_id = Some batch"
    and s: "\<forall>qrPayload. qr_json = Some qrPayload \<longrightarrow> verifyQRSignature L D qrPayload batch"
    and m: "verifyMerkleInclusion H db batch"
  from b v have ne: "\<not> ((qr_json = None \<and> req_batch_id = None) \<or> req_batch_id = Some [])"
    by (auto simp: batchToVerify_def split: option.splits)
  from s have sig: "\<not> (case qr_json of Some qrPayload \<Rightarrow> \<not> verifyQRSignature L D qrPayload batch
                         | None \<Rightarrow> False)"
    by (cases qr_json) auto
  show ?thesis
    using ne b sig m by (cases "verifyBlockchainAnchor batch") (simp_all add: verifyRoute_def Let_def)
qed

lemma demo_verifyQRSignature: "verifyQRSignature demo_secp256k1 demo_digest demo_qr demo_batch"
  by (simp add: verifyQRSignature_def verifySignature_def verifySignature_try_def demo_qr_def
      demo_batch_def demo_publicKey_def Buffer_from_hex_toString_hex demo_verify_bytes)

lemma demo_verifyMerkleInclusion: "verifyMerkleInclusion demo_hash ledgerA demo_batch"
  by (simp add: verifyMerkleInclusion_def getMerkleLeafIndex_def getProof_def ledgerA_def
      demo_batch_def verifyProof_def)

theorem anchor_check_never_rejects_witness:
  "\<exists>res. verifyRoute demo_hash demo_secp256k1 demo_digest [demo_batch] ledgerA (Some demo_qr) None =
       Inr res \<and>
     verified res \<and> mode res = merkle"
proof -
  have b: "batchToVerify [demo_batch] (Some demo_qr) None = Some demo_batch"
    by (simp add: batchToVerify_def Batch_findOne_def demo_batch_def demo_qr_def)
  have s: "\<forall>qrPayload. Some demo_qr = Some qrPayload \<longrightarrow>
      verifyQRSignature demo_secp256k1 demo_digest qrPayload demo_batch"
    using demo_verifyQRSignature by simp
  have a: "\<not> verifyBlockchainAnchor demo_batch"
    by (simp add: verifyBlockchainAnchor_def demo_batch_def)
  have v: "(None :: string option) \<noteq> Some []" by simp
  from anchor_check_never_rejects [OF v b s demo_verifyMerkleInclusion] a
  show ?thesis by simp
qed

end
